theory Spec2Isabelle
  imports Main "HOL-Library.Word"
begin

unbundle bit_operations_syntax

section \<open>Severity levels and the compile-time configuration\<close>

text \<open>
  \<^verbatim>\<open>ulog.h\<close>: the enumeration \<^verbatim>\<open>ulog_level_t\<close>, in declaration order, and the
  integer value C gives each enumerator.
\<close>

datatype ulog_level_t =
  ULOG_NONE | ULOG_ERROR | ULOG_WARN | ULOG_INFO | ULOG_DEBUG | ULOG_VERBOSE

primrec level_val :: "ulog_level_t \<Rightarrow> nat" where
  "level_val ULOG_NONE = 0"
| "level_val ULOG_ERROR = 1"
| "level_val ULOG_WARN = 2"
| "level_val ULOG_INFO = 3"
| "level_val ULOG_DEBUG = 4"
| "level_val ULOG_VERBOSE = 5"

text \<open>\<^verbatim>\<open>ulog_cfg.h\<close>.\<close>

definition CONFIG_LOG_DEFAULT_LEVEL :: ulog_level_t where
  "CONFIG_LOG_DEFAULT_LEVEL = ULOG_VERBOSE"

definition CONFIG_LOG_MAXIMUM_LEVEL :: nat where
  "CONFIG_LOG_MAXIMUM_LEVEL = 5"

section \<open>Level registry\<close>

text \<open>
  The registry holds the wildcard threshold, absent until it is first set, and the
  per-tag entries in first-set order.
\<close>

record level_registry =
  wildcard :: "ulog_level_t option"
  entries :: "(string \<times> ulog_level_t) list"

definition empty_registry :: level_registry where
  "empty_registry = \<lparr>wildcard = None, entries = []\<rparr>"

text \<open>
  Modelled from the spec: \<^verbatim>\<open>ulog_level_get\<close> is declared in \<^verbatim>\<open>ulog.h\<close> but its body
  (\<^verbatim>\<open>ulog.c\<close>) is not among the sources. Section 4.1: it returns the tag's explicit
  threshold if present (the first matching entry wins), else the wildcard default, else
  the compile-time default if no wildcard has ever been set. The wildcard entry that
  Section 3 has created at the first query, with the build-time default as its value, is
  read here as that default while the wildcard is absent, so a query changes nothing.
\<close>

definition ulog_level_get :: "ulog_level_t \<Rightarrow> level_registry \<Rightarrow> string \<Rightarrow> ulog_level_t" where
  "ulog_level_get default_level r tag =
     (case map_of (entries r) tag of
        Some level \<Rightarrow> level
      | None \<Rightarrow> (case wildcard r of Some w \<Rightarrow> w | None \<Rightarrow> default_level))"

text \<open>Updating the first entry of a tag in place; the list keeps its length and order.\<close>

primrec update_entry :: "string \<Rightarrow> ulog_level_t \<Rightarrow> (string \<times> ulog_level_t) list
    \<Rightarrow> (string \<times> ulog_level_t) list" where
  "update_entry tag level [] = []"
| "update_entry tag level (e # es) =
     (if fst e = tag then (tag, level) # es else e # update_entry tag level es)"

text \<open>
  Modelled from the spec: \<^verbatim>\<open>ulog_level_set\<close> is declared in \<^verbatim>\<open>ulog.h\<close> but its body
  (\<^verbatim>\<open>ulog.c\<close>) is not among the sources. Section 4.1: it inserts or updates the threshold
  of the tag; the tag \<^verbatim>\<open>"*"\<close> sets the process-wide default; re-setting a tag updates in
  place; storage is bounded by a fixed capacity and an entry that does not fit is silently
  ignored, so that its tag keeps evaluating as the wildcard default. The capacity is a
  parameter.
\<close>

definition ulog_level_set :: "nat \<Rightarrow> string \<Rightarrow> ulog_level_t \<Rightarrow> level_registry \<Rightarrow> level_registry" where
  "ulog_level_set capacity tag level r =
     (if tag = ''*'' then r\<lparr>wildcard := Some level\<rparr>
      else if tag \<in> fst ` set (entries r)
        then r\<lparr>entries := update_entry tag level (entries r)\<rparr>
      else if length (entries r) < capacity
        then r\<lparr>entries := entries r @ [(tag, level)]\<rparr>
      else r)"

text \<open>The registry after a sequence of \<^verbatim>\<open>ulog_level_set\<close> calls on the empty registry.\<close>

definition registry_after :: "nat \<Rightarrow> (string \<times> ulog_level_t) list \<Rightarrow> level_registry" where
  "registry_after capacity calls =
     fold (\<lambda>(tag, level). ulog_level_set capacity tag level) calls empty_registry"

section \<open>Sink registry\<close>

text \<open>
  The logger: the level registry and the cell \<^verbatim>\<open>vprintf_like_t\<close> holding the active
  sink. The sink is an opaque value of type \<^typ>\<open>'f\<close>.
\<close>

record 'f logger =
  levels :: level_registry
  sink :: 'f

text \<open>
  Modelled from the spec: \<^verbatim>\<open>ulog_set_vprintf\<close> is declared in \<^verbatim>\<open>ulog.h\<close> but its body
  (\<^verbatim>\<open>ulog.c\<close>) is not among the sources. Section 4.3: it replaces the active sink and
  returns the previous one. The shared lock it holds meanwhile only orders concurrent
  callers and is left out of this sequential model.
\<close>

definition ulog_set_vprintf :: "'f \<Rightarrow> 'f logger \<Rightarrow> 'f \<times> 'f logger" where
  "ulog_set_vprintf func lg = (sink lg, lg\<lparr>sink := func\<rparr>)"

section \<open>Dispatch gate\<close>

text \<open>
  What a log call does is recorded as the list of the steps it performs, in order: reading
  the timestamp, looking the tag up in the level registry, trying to take the shared lock
  (with the outcome), invoking the sink, releasing the lock.
\<close>

datatype ('f, 'm) event =
  EvTimestamp
  | EvLevelGet string
  | EvLock bool
  | EvSink 'f ulog_level_t string 'm
  | EvUnlock

primrec is_sink :: "('f, 'm) event \<Rightarrow> bool" where
  "is_sink EvTimestamp = False"
| "is_sink (EvLevelGet t) = False"
| "is_sink (EvLock b) = False"
| "is_sink (EvSink f l t m) = True"
| "is_sink EvUnlock = False"

text \<open>
  Modelled from the spec: \<^verbatim>\<open>ulog_write\<close> is declared in \<^verbatim>\<open>ulog.h\<close> but its body
  (\<^verbatim>\<open>ulog.c\<close>) is not among the sources. Section 4.2, steps 2 to 6: compute the
  effective threshold with \<^verbatim>\<open>get(tag)\<close>; if the level is above it, return; otherwise
  take the shared lock, pass the line to the current sink, and release the lock if it was
  acquired. \<open>acquired\<close> is the outcome of the lock attempt (the bounded variant goes on
  without the lock when it times out). Step 1, the compile-time ceiling, and step 4,
  the timestamp, are done by the macros of \<^verbatim>\<open>ulog.h\<close> below, at the call site.
\<close>

definition ulog_write :: "ulog_level_t \<Rightarrow> bool \<Rightarrow> 'f logger \<Rightarrow> ulog_level_t \<Rightarrow> string \<Rightarrow> 'm
    \<Rightarrow> ('f, 'm) event list" where
  "ulog_write default_level acquired lg level tag msg =
     EvLevelGet tag #
     (if level_val level > level_val (ulog_level_get default_level (levels lg) tag) then []
      else [EvLock acquired, EvSink (sink lg) level tag msg] @ (if acquired then [EvUnlock] else []))"

text \<open>
  \<^verbatim>\<open>ulog.h\<close>, macro \<^verbatim>\<open>ULOG_LEVEL(level, tag, format, ...)\<close>: an \<^verbatim>\<open>if\<close>/\<^verbatim>\<open>else if\<close> chain
  over the level that calls \<^verbatim>\<open>ulog_write\<close> with the matching constant, and with
  \<^verbatim>\<open>ULOG_INFO\<close> in the final \<^verbatim>\<open>else\<close>. The timestamp function is an argument of that
  call, so it is evaluated before \<^verbatim>\<open>ulog_write\<close> is entered.
\<close>

definition ULOG_LEVEL :: "ulog_level_t \<Rightarrow> bool \<Rightarrow> 'f logger \<Rightarrow> ulog_level_t \<Rightarrow> string \<Rightarrow> 'm
    \<Rightarrow> ('f, 'm) event list" where
  "ULOG_LEVEL default_level acquired lg level tag msg =
     (if level = ULOG_ERROR then EvTimestamp # ulog_write default_level acquired lg ULOG_ERROR tag msg
      else if level = ULOG_WARN then EvTimestamp # ulog_write default_level acquired lg ULOG_WARN tag msg
      else if level = ULOG_DEBUG then EvTimestamp # ulog_write default_level acquired lg ULOG_DEBUG tag msg
      else if level = ULOG_VERBOSE then EvTimestamp # ulog_write default_level acquired lg ULOG_VERBOSE tag msg
      else EvTimestamp # ulog_write default_level acquired lg ULOG_INFO tag msg)"

text \<open>
  \<^verbatim>\<open>ulog.h\<close>, macro \<^verbatim>\<open>ULOG_LEVEL_LOCAL\<close>:
  \<^verbatim>\<open>if ( LOG_LOCAL_LEVEL >= level ) ULOG_LEVEL(level, tag, format, ...)\<close>.
  \<^verbatim>\<open>LOG_LOCAL_LEVEL\<close> is the integer ceiling of the translation unit.
\<close>

definition ULOG_LEVEL_LOCAL :: "nat \<Rightarrow> ulog_level_t \<Rightarrow> bool \<Rightarrow> 'f logger \<Rightarrow> ulog_level_t \<Rightarrow> string
    \<Rightarrow> 'm \<Rightarrow> ('f, 'm) event list" where
  "ULOG_LEVEL_LOCAL LOG_LOCAL_LEVEL default_level acquired lg level tag msg =
     (if LOG_LOCAL_LEVEL \<ge> level_val level
      then ULOG_LEVEL default_level acquired lg level tag msg
      else [])"

text \<open>A logger for examples: thresholds set on the empty registry, one sink.\<close>

definition sample_logger :: "(string \<times> ulog_level_t) list \<Rightarrow> nat logger" where
  "sample_logger calls = \<lparr>levels = registry_after 8 calls, sink = 0\<rparr>"

section \<open>Platform shim of the FreeRTOS build: the lock\<close>

text \<open>
  \<^verbatim>\<open>ulog_freertos.c\<close>. The FreeRTOS calls a shim function makes are recorded in order.
  A semaphore handle is \<open>None\<close> for \<^verbatim>\<open>NULL\<close>. What the operating system answers is an
  input: the scheduler state, the handle \<^verbatim>\<open>xSemaphoreCreateMutex\<close> would return, and
  whether \<^verbatim>\<open>xSemaphoreTake\<close> would return \<^verbatim>\<open>pdTRUE\<close>.
\<close>

datatype scheduler_state =
  taskSCHEDULER_NOT_STARTED | taskSCHEDULER_RUNNING | taskSCHEDULER_SUSPENDED

type_synonym SemaphoreHandle_t = "nat option"

datatype TickType_t = portMAX_DELAY | Ticks nat

datatype os_call =
  xSemaphoreCreateMutex
  | xSemaphoreTake SemaphoreHandle_t TickType_t
  | xSemaphoreGive SemaphoreHandle_t

text \<open>
  \<^verbatim>\<open>#define MAX_MUTEX_WAIT_MS 10\<close> and
  \<^verbatim>\<open>#define MAX_MUTEX_WAIT_TICKS ((MAX_MUTEX_WAIT_MS + portTICK_PERIOD_MS - 1) / portTICK_PERIOD_MS)\<close>.
\<close>

definition MAX_MUTEX_WAIT_MS :: nat where
  "MAX_MUTEX_WAIT_MS = 10"

definition MAX_MUTEX_WAIT_TICKS :: "nat \<Rightarrow> TickType_t" where
  "MAX_MUTEX_WAIT_TICKS portTICK_PERIOD_MS =
     Ticks ((MAX_MUTEX_WAIT_MS + portTICK_PERIOD_MS - 1) div portTICK_PERIOD_MS)"

text \<open>
  Each function takes the static \<^verbatim>\<open>s_log_mutex\<close> and returns its new value together
  with the calls made (and the return value, for \<^verbatim>\<open>ulog_impl_lock_timeout\<close>).
\<close>

definition ulog_impl_lock :: "scheduler_state \<Rightarrow> SemaphoreHandle_t \<Rightarrow> SemaphoreHandle_t
    \<Rightarrow> SemaphoreHandle_t \<times> os_call list" where
  "ulog_impl_lock sched created s_log_mutex =
     (let (m, calls) = (if s_log_mutex = None then (created, [xSemaphoreCreateMutex])
                        else (s_log_mutex, []))
      in if sched = taskSCHEDULER_NOT_STARTED then (m, calls)
         else (m, calls @ [xSemaphoreTake m portMAX_DELAY]))"

definition ulog_impl_lock_timeout :: "nat \<Rightarrow> scheduler_state \<Rightarrow> SemaphoreHandle_t \<Rightarrow> bool
    \<Rightarrow> SemaphoreHandle_t \<Rightarrow> bool \<times> SemaphoreHandle_t \<times> os_call list" where
  "ulog_impl_lock_timeout portTICK_PERIOD_MS sched created taken s_log_mutex =
     (let (m, calls) = (if s_log_mutex = None then (created, [xSemaphoreCreateMutex])
                        else (s_log_mutex, []))
      in if sched = taskSCHEDULER_NOT_STARTED then (True, m, calls)
         else (taken, m, calls @ [xSemaphoreTake m (MAX_MUTEX_WAIT_TICKS portTICK_PERIOD_MS)]))"

definition ulog_impl_unlock :: "scheduler_state \<Rightarrow> SemaphoreHandle_t
    \<Rightarrow> SemaphoreHandle_t \<times> os_call list" where
  "ulog_impl_unlock sched s_log_mutex =
     (if sched = taskSCHEDULER_NOT_STARTED then (s_log_mutex, [])
      else (s_log_mutex, [xSemaphoreGive s_log_mutex]))"

section \<open>Platform shim: timestamps\<close>

text \<open>
  \<^verbatim>\<open>ulog_freertos.c\<close> and \<^verbatim>\<open>ulog_noos.c\<close> both define
  \<^verbatim>\<open>uint32_t ulog_early_timestamp(void) { return 0; }\<close>; the no-OS file makes
  \<^verbatim>\<open>ulog_timestamp\<close> an alias of it.
\<close>

type_synonym uint32_t = "32 word"

definition ulog_early_timestamp :: uint32_t where
  "ulog_early_timestamp = 0"

definition noos_ulog_early_timestamp :: uint32_t where
  "noos_ulog_early_timestamp = 0"

definition noos_ulog_timestamp :: uint32_t where
  "noos_ulog_timestamp = noos_ulog_early_timestamp"

text \<open>
  The FreeRTOS queries that \<^verbatim>\<open>ulog_timestamp\<close> makes are inputs of the model:
  the scheduler state, the core the caller runs on, whether it runs inside an interrupt
  handler, and the tick count each of the two tick functions would return.
  \<^verbatim>\<open>TickType_t\<close> is taken to be 32 bits wide, and \<^verbatim>\<open>configTICK_RATE_HZ\<close> is a
  parameter.
\<close>

record rtos_env =
  xTaskGetSchedulerState :: scheduler_state
  xPortGetCoreID :: nat
  xPortInIsrContext :: bool
  xTaskGetTickCountFromISR :: uint32_t
  xTaskGetTickCount :: uint32_t

definition tick_count :: "rtos_env \<Rightarrow> uint32_t" where
  "tick_count e =
     (if xPortInIsrContext e then xTaskGetTickCountFromISR e else xTaskGetTickCount e)"

text \<open>
  \<^verbatim>\<open>ulog_timestamp\<close> of the FreeRTOS build. The static variable \<^verbatim>\<open>base\<close> is
  passed in and returned; the result is a pair of the returned timestamp and the new
  \<^verbatim>\<open>base\<close>. All arithmetic is on \<^verbatim>\<open>uint32_t\<close> and wraps.
\<close>

definition ulog_timestamp :: "nat \<Rightarrow> rtos_env \<Rightarrow> uint32_t \<Rightarrow> uint32_t \<times> uint32_t" where
  "ulog_timestamp configTICK_RATE_HZ e base =
     (if xTaskGetSchedulerState e = taskSCHEDULER_NOT_STARTED
      then (ulog_early_timestamp, base)
      else
        let base' = (if base = 0 \<and> xPortGetCoreID e = 0 then ulog_early_timestamp else base)
        in (base' + tick_count e * of_nat (1000 div configTICK_RATE_HZ), base'))"

text \<open>A run of successive calls, threading \<^verbatim>\<open>base\<close>; returns the final \<^verbatim>\<open>base\<close>.\<close>

primrec timestamp_calls :: "nat \<Rightarrow> rtos_env list \<Rightarrow> uint32_t \<Rightarrow> uint32_t" where
  "timestamp_calls hz [] base = base"
| "timestamp_calls hz (e # es) base = timestamp_calls hz es (snd (ulog_timestamp hz e base))"

text \<open>
  \<^verbatim>\<open>ulog_timestamp\<close> of \<^verbatim>\<open>ulog_linux.c\<close>: the reading of \<^verbatim>\<open>CLOCK_MONOTONIC\<close> is
  an input, and \<^verbatim>\<open>tv_sec * 1000 + tv_nsec / 1000000\<close> is converted to \<^verbatim>\<open>uint32_t\<close>.
  \<^verbatim>\<open>time_t\<close> and \<^verbatim>\<open>long\<close> are taken wide enough for the sum itself not to overflow;
  \<^verbatim>\<open>tv_nsec\<close> is never negative, so the truncating division of C is \<open>div\<close>.
\<close>

definition linux_ulog_timestamp :: "int \<Rightarrow> int \<Rightarrow> uint32_t" where
  "linux_ulog_timestamp tv_sec tv_nsec = word_of_int (tv_sec * 1000 + tv_nsec div 1000000)"

text \<open>Two sample environments: before the scheduler starts, and a task on core 0 at tick \<open>t\<close>.\<close>

definition env_early :: rtos_env where
  "env_early = \<lparr>xTaskGetSchedulerState = taskSCHEDULER_NOT_STARTED, xPortGetCoreID = 0,
     xPortInIsrContext = False, xTaskGetTickCountFromISR = 0, xTaskGetTickCount = 0\<rparr>"

definition env_running :: "uint32_t \<Rightarrow> rtos_env" where
  "env_running t = \<lparr>xTaskGetSchedulerState = taskSCHEDULER_RUNNING, xPortGetCoreID = 0,
     xPortInIsrContext = False, xTaskGetTickCountFromISR = t, xTaskGetTickCount = t\<rparr>"

section \<open>Buffer dump formatters\<close>

text \<open>
  \<^verbatim>\<open>ulog_buffers.c\<close>. Memory is a function from addresses to bytes and a pointer is an
  address. The formatters read the bytes through \<^verbatim>\<open>const char *ptr_line\<close> and pass
  \<^verbatim>\<open>ptr_line[i]\<close> to \<^verbatim>\<open>sprintf\<close>, where it is promoted to \<^verbatim>\<open>int\<close>: whether plain
  \<^verbatim>\<open>char\<close> is signed is left to the compiler by the C standard and is the parameter
  \<open>char_signed\<close>; a signed \<^verbatim>\<open>char\<close> holding a byte from 128 on has that value less
  256. \<^verbatim>\<open>unsigned int\<close> is taken to be 32 bits wide.
\<close>

type_synonym byte = "8 word"

definition char_arg :: "bool \<Rightarrow> byte \<Rightarrow> int" where
  "char_arg char_signed b =
     (if char_signed \<and> 128 \<le> uint b then uint b - 256 else uint b)"

definition hex_digit :: "nat \<Rightarrow> char" where
  "hex_digit d = ''0123456789abcdef'' ! d"

function to_hex :: "int \<Rightarrow> string" where
  "to_hex n =
     (if n < 16 then [hex_digit (nat n)] else to_hex (n div 16) @ [hex_digit (nat (n mod 16))])"
  by pat_completeness auto
termination
  by (relation "measure nat") auto

declare to_hex.simps [simp del]

text \<open>
  The conversions of \<^verbatim>\<open>printf\<close>: \<^verbatim>\<open>%02x\<close> prints its argument, taken as
  \<^verbatim>\<open>unsigned int\<close>, in lowercase hexadecimal, padded with zeros to at least two digits;
  \<^verbatim>\<open>%c\<close> prints its argument converted to \<^verbatim>\<open>unsigned char\<close>. \<^verbatim>\<open>isprint\<close> is that
  of the C locale; for a negative argument, where the C standard leaves it undefined, it
  answers false here, as the C library's table does.
\<close>

definition fmt_02x :: "int \<Rightarrow> string" where
  "fmt_02x v = (let s = to_hex (v mod 2 ^ 32) in replicate (2 - length s) CHR ''0'' @ s)"

definition fmt_c :: "int \<Rightarrow> char" where
  "fmt_c v = char_of v"

definition isprint :: "int \<Rightarrow> bool" where
  "isprint c = (32 \<le> c \<and> c \<le> 126)"

text \<open>
  A character buffer on the stack is a list of its cells. \<^verbatim>\<open>sprintf(buf + off, ...)\<close>
  stores the formatted characters and a terminating NUL from cell \<open>off\<close> on; storing
  past the last cell is undefined in C and is \<open>None\<close> here. Printing a buffer with
  \<^verbatim>\<open>%s\<close> reads up to the first NUL.
\<close>

datatype render_error = BufferOverrun

definition NUL :: char where
  "NUL = CHR 0x00"

definition sprintf_at :: "nat \<Rightarrow> string \<Rightarrow> char list \<Rightarrow> char list option" where
  "sprintf_at off s buf =
     (if off + length s + 1 \<le> length buf
      then Some (take off buf @ s @ [NUL] @ drop (off + length s + 1) buf)
      else None)"

definition c_str :: "char list \<Rightarrow> render_error + string" where
  "c_str buf =
     (if NUL \<in> set buf then Inr (takeWhile (\<lambda>c. c \<noteq> NUL) buf) else Inl BufferOverrun)"

text \<open>
  \<^verbatim>\<open>static inline bool uptr_byte_accessible(const void* ptr) { (void) ptr; return true; }\<close>
  and the choice of \<^verbatim>\<open>ptr_line\<close>: the staged copy in \<^verbatim>\<open>temp_buffer\<close>, rounded up to a
  multiple of four bytes, or the buffer itself.
\<close>

definition BYTES_PER_LINE :: nat where
  "BYTES_PER_LINE = 16"

definition uptr_byte_accessible :: "nat \<Rightarrow> bool" where
  "uptr_byte_accessible ptr = True"

definition line_source :: "(nat \<Rightarrow> byte) \<Rightarrow> nat \<Rightarrow> nat \<Rightarrow> nat \<Rightarrow> byte" where
  "line_source mem buffer bytes_cur_line =
     (if \<not> uptr_byte_accessible buffer
      then (let temp_buffer = map (\<lambda>i. mem (buffer + i)) [0 ..< (bytes_cur_line + 3) div 4 * 4]
            in (\<lambda>i. temp_buffer ! i))
      else (\<lambda>i. mem (buffer + i)))"

text \<open>
  The \<^verbatim>\<open>do { ... } while (buff_len)\<close> loop, which the three formatters share word for
  word apart from the rendering of the line. \<open>render\<close> gets \<^verbatim>\<open>ptr_line\<close>, the value
  of \<^verbatim>\<open>buffer\<close>, \<^verbatim>\<open>bytes_cur_line\<close> and the formatter's character buffer, and returns
  the text handed to \<^verbatim>\<open>ULOG_LEVEL\<close> and the character buffer as it is left for the next
  line. The result has one entry for each \<^verbatim>\<open>ULOG_LEVEL\<close> call of the loop: the values
  of \<^verbatim>\<open>buffer\<close> and \<^verbatim>\<open>bytes_cur_line\<close> at the call, and the text. \<^verbatim>\<open>buff_len\<close> is a
  \<^verbatim>\<open>uint16_t\<close>. A rendering that stores past the end of its character buffer makes the
  behaviour of the whole call undefined in C: the result is then \<open>Inl BufferOverrun\<close>,
  and says nothing about the calls the program makes.
\<close>

type_synonym dump_line = "nat \<times> nat \<times> string"

function dump_loop :: "((nat \<Rightarrow> byte) \<Rightarrow> nat \<Rightarrow> nat \<Rightarrow> 'b \<Rightarrow> render_error + string \<times> 'b)
    \<Rightarrow> (nat \<Rightarrow> byte) \<Rightarrow> nat \<Rightarrow> 16 word \<Rightarrow> 'b \<Rightarrow> render_error + dump_line list" where
  "dump_loop render mem buffer buff_len cb =
     (let bytes_cur_line = (if buff_len > of_nat BYTES_PER_LINE then BYTES_PER_LINE
                            else unat buff_len)
      in case render (line_source mem buffer bytes_cur_line) buffer bytes_cur_line cb of
           Inl e \<Rightarrow> Inl e
         | Inr r \<Rightarrow>
             (let buff_len' = buff_len - of_nat bytes_cur_line
              in if buff_len' \<noteq> 0
                 then (case dump_loop render mem (buffer + bytes_cur_line) buff_len' (snd r) of
                         Inl e \<Rightarrow> Inl e
                       | Inr ls \<Rightarrow> Inr ((buffer, bytes_cur_line, fst r) # ls))
                 else Inr [(buffer, bytes_cur_line, fst r)]))"
  by pat_completeness auto
termination
proof (relation "measure (\<lambda>(render, mem, buffer, buff_len, cb). unat buff_len)")
  show "wf (measure (\<lambda>(render, mem, buffer, buff_len, cb). unat buff_len))"
    by simp
next
  fix render :: "(nat \<Rightarrow> byte) \<Rightarrow> nat \<Rightarrow> nat \<Rightarrow> 'b \<Rightarrow> render_error + string \<times> 'b"
    and mem :: "nat \<Rightarrow> byte" and buffer :: nat and buff_len :: "16 word" and cb :: 'b
    and n and r :: "string \<times> 'b" and bl :: "16 word"
  assume n: "n = (if buff_len > of_nat BYTES_PER_LINE then BYTES_PER_LINE else unat buff_len)"
    and bl: "bl = buff_len - of_nat n" and nz: "bl \<noteq> 0"
  have "unat bl < unat buff_len"
  proof (cases "buff_len > of_nat BYTES_PER_LINE")
    case True
    then have "(16 :: 16 word) \<le> buff_len"
      by (simp add: BYTES_PER_LINE_def)
    then have "unat (buff_len - 16) = unat buff_len - 16" "16 \<le> unat buff_len"
      by (simp_all add: unat_sub word_le_nat_alt)
    then show ?thesis
      using True n bl by (simp add: BYTES_PER_LINE_def)
  next
    case False
    then have "bl = 0"
      using n bl by simp
    then show ?thesis
      using nz by simp
  qed
  then show "((render, mem, buffer + n, bl, snd r), render, mem, buffer, buff_len, cb)
      \<in> measure (\<lambda>(render, mem, buffer, buff_len, cb). unat buff_len)"
    by simp
qed

declare dump_loop.simps [simp del]

text \<open>
  \<^verbatim>\<open>ulog_buffer_hex_internal\<close>: \<^verbatim>\<open>char hex_buffer[3 * BYTES_PER_LINE + 1]\<close>, and for each
  byte \<^verbatim>\<open>sprintf(hex_buffer + 3 * i, "%02x ", ptr_line[i])\<close>. A stack buffer starts with
  whatever the stack holds, the parameter \<open>stack\<close>.
\<close>

primrec hex_for :: "bool \<Rightarrow> (nat \<Rightarrow> byte) \<Rightarrow> nat list \<Rightarrow> char list \<Rightarrow> char list option" where
  "hex_for char_signed ptr_line [] hex_buffer = Some hex_buffer"
| "hex_for char_signed ptr_line (i # is) hex_buffer =
     (case sprintf_at (3 * i) (fmt_02x (char_arg char_signed (ptr_line i)) @ '' '') hex_buffer of
        None \<Rightarrow> None
      | Some hb \<Rightarrow> hex_for char_signed ptr_line is hb)"

definition hex_render :: "bool \<Rightarrow> (nat \<Rightarrow> byte) \<Rightarrow> nat \<Rightarrow> nat \<Rightarrow> char list
    \<Rightarrow> render_error + string \<times> char list" where
  "hex_render char_signed ptr_line buffer bytes_cur_line hex_buffer =
     (case hex_for char_signed ptr_line [0 ..< bytes_cur_line] hex_buffer of
        None \<Rightarrow> Inl BufferOverrun
      | Some hb \<Rightarrow> (case c_str hb of Inl e \<Rightarrow> Inl e | Inr s \<Rightarrow> Inr (s, hb)))"

definition ulog_buffer_hex_internal :: "bool \<Rightarrow> (nat \<Rightarrow> char) \<Rightarrow> (nat \<Rightarrow> byte) \<Rightarrow> nat \<Rightarrow> 16 word
    \<Rightarrow> render_error + dump_line list" where
  "ulog_buffer_hex_internal char_signed stack mem buffer buff_len =
     (if buff_len = 0 then Inr []
      else dump_loop (hex_render char_signed) mem buffer buff_len
             (map stack [0 ..< 3 * BYTES_PER_LINE + 1]))"

text \<open>
  \<^verbatim>\<open>ulog_buffer_char_internal\<close>: \<^verbatim>\<open>char char_buffer[BYTES_PER_LINE + 1]\<close>, and for each
  byte \<^verbatim>\<open>sprintf(char_buffer + i, "%c", ptr_line[i])\<close>.
\<close>

primrec char_for :: "bool \<Rightarrow> (nat \<Rightarrow> byte) \<Rightarrow> nat list \<Rightarrow> char list \<Rightarrow> char list option" where
  "char_for char_signed ptr_line [] char_buffer = Some char_buffer"
| "char_for char_signed ptr_line (i # is) char_buffer =
     (case sprintf_at i [fmt_c (char_arg char_signed (ptr_line i))] char_buffer of
        None \<Rightarrow> None
      | Some cb \<Rightarrow> char_for char_signed ptr_line is cb)"

definition char_render :: "bool \<Rightarrow> (nat \<Rightarrow> byte) \<Rightarrow> nat \<Rightarrow> nat \<Rightarrow> char list
    \<Rightarrow> render_error + string \<times> char list" where
  "char_render char_signed ptr_line buffer bytes_cur_line char_buffer =
     (case char_for char_signed ptr_line [0 ..< bytes_cur_line] char_buffer of
        None \<Rightarrow> Inl BufferOverrun
      | Some cb \<Rightarrow> (case c_str cb of Inl e \<Rightarrow> Inl e | Inr s \<Rightarrow> Inr (s, cb)))"

definition ulog_buffer_char_internal :: "bool \<Rightarrow> (nat \<Rightarrow> char) \<Rightarrow> (nat \<Rightarrow> byte) \<Rightarrow> nat \<Rightarrow> 16 word
    \<Rightarrow> render_error + dump_line list" where
  "ulog_buffer_char_internal char_signed stack mem buffer buff_len =
     (if buff_len = 0 then Inr []
      else dump_loop (char_render char_signed) mem buffer buff_len
             (map stack [0 ..< BYTES_PER_LINE + 1]))"

text \<open>
  \<^verbatim>\<open>ulog_buffer_hexdump_internal\<close>:
  \<^verbatim>\<open>char hd_buffer[10 + 3 + BYTES_PER_LINE * 3 + 3 + BYTES_PER_LINE + 1 + 1]\<close>, filled
  through \<^verbatim>\<open>ptr_hd += sprintf(ptr_hd, ...)\<close>; the state is the buffer and the offset of
  \<^verbatim>\<open>ptr_hd\<close> in it. How \<^verbatim>\<open>%p\<close> prints a pointer is left to the C library and is the
  parameter \<open>fmt_p\<close>.
\<close>

definition sprintf_adv :: "string \<Rightarrow> char list \<times> nat \<Rightarrow> (char list \<times> nat) option" where
  "sprintf_adv s st =
     (case sprintf_at (snd st) s (fst st) of
        None \<Rightarrow> None
      | Some hb \<Rightarrow> Some (hb, snd st + length s))"

primrec hd_hex_for :: "bool \<Rightarrow> (nat \<Rightarrow> byte) \<Rightarrow> nat \<Rightarrow> nat list \<Rightarrow> char list \<times> nat
    \<Rightarrow> (char list \<times> nat) option" where
  "hd_hex_for char_signed ptr_line bytes_cur_line [] st = Some st"
| "hd_hex_for char_signed ptr_line bytes_cur_line (i # is) st =
     (case (if i AND 7 = 0 then sprintf_adv '' '' st else Some st) of
        None \<Rightarrow> None
      | Some st1 \<Rightarrow>
          (case (if i < bytes_cur_line
                 then sprintf_adv ('' '' @ fmt_02x (char_arg char_signed (ptr_line i))) st1
                 else sprintf_adv ''   '' st1) of
             None \<Rightarrow> None
           | Some st2 \<Rightarrow> hd_hex_for char_signed ptr_line bytes_cur_line is st2))"

primrec hd_char_for :: "bool \<Rightarrow> (nat \<Rightarrow> byte) \<Rightarrow> nat list \<Rightarrow> char list \<times> nat
    \<Rightarrow> (char list \<times> nat) option" where
  "hd_char_for char_signed ptr_line [] st = Some st"
| "hd_char_for char_signed ptr_line (i # is) st =
     (case (if isprint (char_arg char_signed (ptr_line i))
            then sprintf_adv [fmt_c (char_arg char_signed (ptr_line i))] st
            else sprintf_adv ''.'' st) of
        None \<Rightarrow> None
      | Some st1 \<Rightarrow> hd_char_for char_signed ptr_line is st1)"

definition hexdump_fill :: "bool \<Rightarrow> (nat \<Rightarrow> string) \<Rightarrow> (nat \<Rightarrow> byte) \<Rightarrow> nat \<Rightarrow> nat \<Rightarrow> char list
    \<Rightarrow> (char list \<times> nat) option" where
  "hexdump_fill char_signed fmt_p ptr_line buffer bytes_cur_line hd_buffer =
     (case sprintf_adv (fmt_p buffer @ '' '') (hd_buffer, 0) of None \<Rightarrow> None | Some st1 \<Rightarrow>
      (case hd_hex_for char_signed ptr_line bytes_cur_line [0 ..< BYTES_PER_LINE] st1 of
         None \<Rightarrow> None | Some st2 \<Rightarrow>
      (case sprintf_adv ''  |'' st2 of None \<Rightarrow> None | Some st3 \<Rightarrow>
      (case hd_char_for char_signed ptr_line [0 ..< bytes_cur_line] st3 of
         None \<Rightarrow> None | Some st4 \<Rightarrow>
       sprintf_adv ''|'' st4))))"

definition hexdump_render :: "bool \<Rightarrow> (nat \<Rightarrow> string) \<Rightarrow> (nat \<Rightarrow> byte) \<Rightarrow> nat \<Rightarrow> nat \<Rightarrow> char list
    \<Rightarrow> render_error + string \<times> char list" where
  "hexdump_render char_signed fmt_p ptr_line buffer bytes_cur_line hd_buffer =
     (case hexdump_fill char_signed fmt_p ptr_line buffer bytes_cur_line hd_buffer of
        None \<Rightarrow> Inl BufferOverrun
      | Some st \<Rightarrow> (case c_str (fst st) of Inl e \<Rightarrow> Inl e | Inr s \<Rightarrow> Inr (s, fst st)))"

definition ulog_buffer_hexdump_internal :: "bool \<Rightarrow> (nat \<Rightarrow> string) \<Rightarrow> (nat \<Rightarrow> char) \<Rightarrow> (nat \<Rightarrow> byte)
    \<Rightarrow> nat \<Rightarrow> 16 word \<Rightarrow> render_error + dump_line list" where
  "ulog_buffer_hexdump_internal char_signed fmt_p stack mem buffer buff_len =
     (if buff_len = 0 then Inr []
      else dump_loop (hexdump_render char_signed fmt_p) mem buffer buff_len
             (map stack [0 ..< 10 + 3 + BYTES_PER_LINE * 3 + 3 + BYTES_PER_LINE + 1 + 1]))"

text \<open>
  The lines as the specification words them, to compare with what the code renders. Hex
  renderer: each byte as two lowercase hex digits followed by a space. Hexdump renderer:
  the pointer value, the 16 slots in two groups of 8 (a space before each slot, one more
  before each group and after \<^verbatim>\<open>%p\<close>), a slot past the end of a short chunk as three
  spaces, then the margin between bars, each byte as its character if printable and as a
  dot otherwise.
\<close>

definition hex2 :: "byte \<Rightarrow> string" where
  "hex2 b = [hex_digit (unat b div 16), hex_digit (unat b mod 16)]"

definition spec_hex_line :: "byte list \<Rightarrow> string" where
  "spec_hex_line bs = concat (map (\<lambda>b. hex2 b @ '' '') bs)"

definition margin_char :: "byte \<Rightarrow> char" where
  "margin_char b = (if 32 \<le> unat b \<and> unat b \<le> 126 then char_of (unat b) else CHR ''.'')"

definition hexdump_cell :: "byte list \<Rightarrow> nat \<Rightarrow> string" where
  "hexdump_cell bs i = (if i < length bs then '' '' @ hex2 (bs ! i) else ''   '')"

definition spec_hexdump_line :: "string \<Rightarrow> byte list \<Rightarrow> string" where
  "spec_hexdump_line p bs =
     p @ ''  '' @ concat (map (hexdump_cell bs) [0 ..< 8]) @ '' '' @
     concat (map (hexdump_cell bs) [8 ..< 16]) @ ''  |'' @ map margin_char bs @ ''|''"

text \<open>
  For the proofs about the hexdump writer: the state after the text \<open>acc\<close> has been
  written, and the text each loop iteration appends.
\<close>

definition written :: "string \<Rightarrow> char list \<times> nat \<Rightarrow> bool" where
  "written acc st \<longleftrightarrow> length (fst st) = 82 \<and> snd st = length acc \<and> take (snd st) (fst st) = acc"

definition hd_cell :: "bool \<Rightarrow> (nat \<Rightarrow> byte) \<Rightarrow> nat \<Rightarrow> nat \<Rightarrow> string" where
  "hd_cell sg pl n i =
     (if i AND 7 = 0 then '' '' else []) @
     (if i < n then '' '' @ fmt_02x (char_arg sg (pl i)) else ''   '')"

definition hd_margin :: "bool \<Rightarrow> (nat \<Rightarrow> byte) \<Rightarrow> nat \<Rightarrow> char" where
  "hd_margin sg pl i =
     (if isprint (char_arg sg (pl i)) then fmt_c (char_arg sg (pl i)) else CHR ''.'')"

text \<open>
  The chunking as the specification words it: fixed chunks of 16 bytes, the final one
  possibly shorter, nothing for length 0; \<open>line p n\<close> is the text of the line for the
  \<open>n\<close> bytes at \<open>p\<close>. \<open>bytes_at\<close> reads these bytes, and \<open>char_line\<close> is the line
  of the char renderer: the bytes as characters, as far as \<^verbatim>\<open>%s\<close> prints them, that is
  up to the first NUL byte.
\<close>

function spec_chunks :: "(nat \<Rightarrow> nat \<Rightarrow> string) \<Rightarrow> nat \<Rightarrow> nat \<Rightarrow> dump_line list" where
  "spec_chunks line p len =
     (if len = 0 then []
      else (p, min 16 len, line p (min 16 len)) #
           spec_chunks line (p + min 16 len) (len - min 16 len))"
  by pat_completeness auto
termination
  by (relation "measure (\<lambda>(line, p, len). len)") auto

declare spec_chunks.simps [simp del]

definition bytes_at :: "(nat \<Rightarrow> byte) \<Rightarrow> nat \<Rightarrow> nat \<Rightarrow> byte list" where
  "bytes_at mem p n = map (\<lambda>i. mem (p + i)) [0 ..< n]"

definition char_line :: "byte list \<Rightarrow> string" where
  "char_line bs = takeWhile (\<lambda>c. c \<noteq> NUL) (map (\<lambda>b. char_of (unat b)) bs)"

text \<open>
  Each entry of a formatter's result is one \<^verbatim>\<open>ULOG_LEVEL(log_level, tag, "%s", ...)\<close>
  call; \<open>emit_lines\<close> makes these calls in order. Where the formatter's behaviour is
  undefined, so is what reaches the dispatch gate.
\<close>

definition emit_lines :: "ulog_level_t \<Rightarrow> bool \<Rightarrow> 'f logger \<Rightarrow> ulog_level_t \<Rightarrow> string
    \<Rightarrow> render_error + dump_line list \<Rightarrow> render_error + ('f, string) event list" where
  "emit_lines default_level acquired lg log_level tag res =
     (case res of
        Inl e \<Rightarrow> Inl e
      | Inr ls \<Rightarrow>
          Inr (concat (map (\<lambda>l. ULOG_LEVEL default_level acquired lg log_level tag (snd (snd l))) ls)))"

text \<open>Sample inputs: memory read from a list of bytes, a stack of \<open>?\<close>, a 32-bit \<^verbatim>\<open>%p\<close>.\<close>

definition mem_of :: "byte list \<Rightarrow> nat \<Rightarrow> byte" where
  "mem_of bs a = (if a < length bs then bs ! a else 0)"

definition sample_stack :: "nat \<Rightarrow> char" where
  "sample_stack i = CHR ''?''"

definition sample_fmt_p :: "nat \<Rightarrow> string" where
  "sample_fmt_p a = ''0x3ffb4280''"

section \<open>Level registry properties\<close>


lemma keys_update_entry: "map fst (update_entry tag level es) = map fst es"
  by (induction es) auto


lemma ulog_level_set_keys:
  "set (map fst (entries (ulog_level_set cap tag level r))) \<subseteq> insert tag (set (map fst (entries r)))"
  by (auto simp: ulog_level_set_def keys_update_entry simp flip: set_map)









text \<open>
  C5. For a tag with no explicit entry, \<^verbatim>\<open>get\<close> returns the wildcard default if a
  wildcard entry exists and the compile-time default otherwise; and right after
  \<^verbatim>\<open>set("*", level)\<close> it returns that level for every such tag.
\<close>

theorem get_without_entry:
  "tag \<notin> fst ` set (entries r) \<Longrightarrow>
     ulog_level_get d r tag = (case wildcard r of Some w \<Rightarrow> w | None \<Rightarrow> d)
     \<and> ulog_level_get d (ulog_level_set cap ''*'' level r) tag = level"
proof -
  assume "tag \<notin> fst ` set (entries r)"
  then have "map_of (entries r) tag = None"
    by (simp add: map_of_eq_None_iff)
  then show ?thesis
    by (simp add: ulog_level_get_def ulog_level_set_def)
qed

theorem get_without_entry_witness:
  "''main'' \<notin> fst ` set (entries (registry_after 8 [(''wifi'', ULOG_WARN)]))
   \<and> ulog_level_get CONFIG_LOG_DEFAULT_LEVEL (registry_after 8 [(''wifi'', ULOG_WARN)]) ''main''
       = ULOG_VERBOSE
   \<and> ulog_level_get CONFIG_LOG_DEFAULT_LEVEL
        (ulog_level_set 8 ''*'' ULOG_ERROR (registry_after 8 [(''wifi'', ULOG_WARN)])) ''main''
       = ULOG_ERROR"
proof -
  have h: "''main'' \<notin> fst ` set (entries (registry_after 8 [(''wifi'', ULOG_WARN)]))"
    by (simp add: registry_after_def empty_registry_def ulog_level_set_def)
  have w: "wildcard (registry_after 8 [(''wifi'', ULOG_WARN)]) = None"
    by (simp add: registry_after_def empty_registry_def ulog_level_set_def)
  from get_without_entry [OF h, of CONFIG_LOG_DEFAULT_LEVEL 8 ULOG_ERROR] h w show ?thesis
    by (simp add: CONFIG_LOG_DEFAULT_LEVEL_def)
qed




section \<open>Sink registry properties\<close>

text \<open>
  C7. \<^verbatim>\<open>set_sink(new)\<close> returns the sink that was active before the call; calling it
  again with the returned sink returns \<open>new\<close> and leaves the logger as it was at the
  start.
\<close>

theorem set_vprintf_round_trip:
  "fst (ulog_set_vprintf new lg) = sink lg
   \<and> fst (ulog_set_vprintf (fst (ulog_set_vprintf new lg)) (snd (ulog_set_vprintf new lg))) = new
   \<and> snd (ulog_set_vprintf (fst (ulog_set_vprintf new lg)) (snd (ulog_set_vprintf new lg))) = lg"
  by (simp add: ulog_set_vprintf_def)

section \<open>Lock properties\<close>

text \<open>
  C8. Before the scheduler has started, \<^verbatim>\<open>ulog_impl_lock\<close> makes no
  \<^verbatim>\<open>xSemaphoreTake\<close> call, \<^verbatim>\<open>ulog_impl_lock_timeout\<close> returns true without one, and
  \<^verbatim>\<open>ulog_impl_unlock\<close> makes no call and changes nothing. Once the scheduler has
  started, \<^verbatim>\<open>ulog_impl_lock\<close> ends with \<^verbatim>\<open>xSemaphoreTake\<close> on the shared mutex with
  \<^verbatim>\<open>portMAX_DELAY\<close>, the wait without a time limit. In either state the mutex is created
  by the call that finds \<^verbatim>\<open>s_log_mutex\<close> null, and kept from then on.
\<close>

theorem rtos_lock_by_state:
  "(sched = taskSCHEDULER_NOT_STARTED \<longrightarrow>
      snd (ulog_impl_lock sched created m) = (if m = None then [xSemaphoreCreateMutex] else [])
      \<and> fst (ulog_impl_lock_timeout period sched created taken m) = True
      \<and> snd (snd (ulog_impl_lock_timeout period sched created taken m))
          = (if m = None then [xSemaphoreCreateMutex] else [])
      \<and> ulog_impl_unlock sched m = (m, []))
   \<and> (sched \<noteq> taskSCHEDULER_NOT_STARTED \<longrightarrow>
      snd (ulog_impl_lock sched created m)
        = (if m = None then [xSemaphoreCreateMutex] else [])
          @ [xSemaphoreTake (if m = None then created else m) portMAX_DELAY])
   \<and> fst (ulog_impl_lock sched created m) = (if m = None then created else m)
   \<and> fst (snd (ulog_impl_lock_timeout period sched created taken m))
       = (if m = None then created else m)"
  by (simp add: ulog_impl_lock_def ulog_impl_lock_timeout_def ulog_impl_unlock_def)

theorem rtos_lock_by_state_witness:
  "snd (ulog_impl_lock taskSCHEDULER_NOT_STARTED (Some 1) None) = [xSemaphoreCreateMutex]
   \<and> fst (ulog_impl_lock_timeout 1 taskSCHEDULER_NOT_STARTED (Some 1) False (Some 1)) = True
   \<and> snd (snd (ulog_impl_lock_timeout 1 taskSCHEDULER_NOT_STARTED (Some 1) False (Some 1))) = []
   \<and> ulog_impl_unlock taskSCHEDULER_NOT_STARTED (Some 1) = (Some 1, [])
   \<and> snd (ulog_impl_lock taskSCHEDULER_RUNNING (Some 1) None)
       = [xSemaphoreCreateMutex, xSemaphoreTake (Some 1) portMAX_DELAY]
   \<and> snd (ulog_impl_lock taskSCHEDULER_RUNNING (Some 2) (Some 1))
       = [xSemaphoreTake (Some 1) portMAX_DELAY]"
proof -
  have ns: "taskSCHEDULER_NOT_STARTED = taskSCHEDULER_NOT_STARTED"
    and run: "taskSCHEDULER_RUNNING \<noteq> taskSCHEDULER_NOT_STARTED"
    by simp_all
  from rtos_lock_by_state [of taskSCHEDULER_NOT_STARTED "Some 1" None 1 False]
    rtos_lock_by_state [of taskSCHEDULER_NOT_STARTED "Some 1" "Some 1" 1 False]
    rtos_lock_by_state [of taskSCHEDULER_RUNNING "Some 1" None 1 False]
    rtos_lock_by_state [of taskSCHEDULER_RUNNING "Some 2" "Some 1" 1 False]
    ns run
  show ?thesis by simp
qed

section \<open>Dispatch properties\<close>

lemma ULOG_LEVEL_same:
  "level \<noteq> ULOG_NONE \<Longrightarrow>
   ULOG_LEVEL d acq lg level tag msg = EvTimestamp # ulog_write d acq lg level tag msg"
  by (cases level) (simp_all add: ULOG_LEVEL_def)

lemma ULOG_LEVEL_none:
  "ULOG_LEVEL d acq lg ULOG_NONE tag msg = EvTimestamp # ulog_write d acq lg ULOG_INFO tag msg"
  by (simp add: ULOG_LEVEL_def)

lemma sink_calls_ulog_write:
  "filter is_sink (ulog_write d acq lg level tag msg)
   = (if level_val level \<le> level_val (ulog_level_get d (levels lg) tag)
      then [EvSink (sink lg) level tag msg] else [])"
  by (simp add: ulog_write_def)

text \<open>
  C1, as amended. For every level other than \<^verbatim>\<open>ULOG_NONE\<close>, a log call at that level
  with a tag invokes the sink if and only if the level is at most the minimum of the
  compiled ceiling and the tag's effective threshold, and then exactly once; when the level
  is above the ceiling the call does nothing at all, before any registry lookup; when it
  is within the ceiling but above the threshold the call reads the timestamp, looks the tag
  up and returns, without touching the lock or the sink. A call at level \<^verbatim>\<open>ULOG_NONE\<close>
  passes every ceiling and is dispatched as an Info line.
\<close>

theorem dispatch_by_level:
  "(level \<noteq> ULOG_NONE \<longrightarrow>
      ((filter is_sink (ULOG_LEVEL_LOCAL C d acq lg level tag msg) \<noteq> [])
         = (level_val level \<le> min C (level_val (ulog_level_get d (levels lg) tag))))
      \<and> filter is_sink (ULOG_LEVEL_LOCAL C d acq lg level tag msg)
         = (if level_val level \<le> min C (level_val (ulog_level_get d (levels lg) tag))
            then [EvSink (sink lg) level tag msg] else [])
      \<and> (C < level_val level \<longrightarrow> ULOG_LEVEL_LOCAL C d acq lg level tag msg = [])
      \<and> (level_val level \<le> C \<and> level_val (ulog_level_get d (levels lg) tag) < level_val level
          \<longrightarrow> ULOG_LEVEL_LOCAL C d acq lg level tag msg = [EvTimestamp, EvLevelGet tag]))
   \<and> ULOG_LEVEL_LOCAL C d acq lg ULOG_NONE tag msg
       = EvTimestamp # ulog_write d acq lg ULOG_INFO tag msg"
proof -
  have none: "ULOG_LEVEL_LOCAL C d acq lg ULOG_NONE tag msg
       = EvTimestamp # ulog_write d acq lg ULOG_INFO tag msg"
    by (simp add: ULOG_LEVEL_LOCAL_def ULOG_LEVEL_none)
  have rest: "((filter is_sink (ULOG_LEVEL_LOCAL C d acq lg level tag msg) \<noteq> [])
         = (level_val level \<le> min C (level_val (ulog_level_get d (levels lg) tag))))
      \<and> filter is_sink (ULOG_LEVEL_LOCAL C d acq lg level tag msg)
         = (if level_val level \<le> min C (level_val (ulog_level_get d (levels lg) tag))
            then [EvSink (sink lg) level tag msg] else [])
      \<and> (C < level_val level \<longrightarrow> ULOG_LEVEL_LOCAL C d acq lg level tag msg = [])
      \<and> (level_val level \<le> C \<and> level_val (ulog_level_get d (levels lg) tag) < level_val level
          \<longrightarrow> ULOG_LEVEL_LOCAL C d acq lg level tag msg = [EvTimestamp, EvLevelGet tag])"
    if "level \<noteq> ULOG_NONE"
    using that by (simp add: ULOG_LEVEL_LOCAL_def ULOG_LEVEL_same sink_calls_ulog_write)
      (simp add: ulog_write_def)
  show ?thesis
    using none rest by blast
qed

theorem dispatch_by_level_witness:
  "ULOG_DEBUG \<noteq> ULOG_NONE
   \<and> filter is_sink (ULOG_LEVEL_LOCAL 5 ULOG_VERBOSE True (sample_logger [(''*'', ULOG_INFO)])
        ULOG_DEBUG ''main'' ''boot'') = []
   \<and> filter is_sink (ULOG_LEVEL_LOCAL 5 ULOG_VERBOSE True (sample_logger [(''*'', ULOG_INFO)])
        ULOG_WARN ''main'' ''boot'') = [EvSink 0 ULOG_WARN ''main'' ''boot'']
   \<and> (3::nat) < level_val ULOG_DEBUG
   \<and> ULOG_LEVEL_LOCAL 3 ULOG_VERBOSE True (sample_logger [(''*'', ULOG_VERBOSE)])
        ULOG_DEBUG ''main'' ''boot'' = []
   \<and> level_val ULOG_DEBUG \<le> 5
   \<and> level_val (ulog_level_get ULOG_VERBOSE (levels (sample_logger [(''*'', ULOG_INFO)])) ''main'')
       < level_val ULOG_DEBUG
   \<and> ULOG_LEVEL_LOCAL 5 ULOG_VERBOSE True (sample_logger [(''*'', ULOG_INFO)])
        ULOG_DEBUG ''main'' ''boot'' = [EvTimestamp, EvLevelGet ''main'']"
proof -
  have g: "ulog_level_get ULOG_VERBOSE (levels (sample_logger [(''*'', ULOG_INFO)])) ''main'' = ULOG_INFO"
    and s: "sink (sample_logger [(''*'', ULOG_INFO)]) = 0"
    by (simp_all add: sample_logger_def registry_after_def empty_registry_def ulog_level_set_def
        ulog_level_get_def)
  have h1: "ULOG_DEBUG \<noteq> ULOG_NONE" and h2: "ULOG_WARN \<noteq> ULOG_NONE"
    and h3: "(3::nat) < level_val ULOG_DEBUG" and h4: "level_val ULOG_DEBUG \<le> 5"
    by simp_all
  have h5: "level_val (ulog_level_get ULOG_VERBOSE (levels (sample_logger [(''*'', ULOG_INFO)])) ''main'')
       < level_val ULOG_DEBUG"
    by (simp add: g)
  from dispatch_by_level [of ULOG_DEBUG 5 ULOG_VERBOSE True "sample_logger [(''*'', ULOG_INFO)]" "''main''" "''boot''"]
    h1 h4 h5 g
  have a: "filter is_sink (ULOG_LEVEL_LOCAL 5 ULOG_VERBOSE True (sample_logger [(''*'', ULOG_INFO)])
        ULOG_DEBUG ''main'' ''boot'') = []"
    and d: "ULOG_LEVEL_LOCAL 5 ULOG_VERBOSE True (sample_logger [(''*'', ULOG_INFO)])
        ULOG_DEBUG ''main'' ''boot'' = [EvTimestamp, EvLevelGet ''main'']"
    by simp_all
  from dispatch_by_level [of ULOG_WARN 5 ULOG_VERBOSE True "sample_logger [(''*'', ULOG_INFO)]" "''main''" "''boot''"]
    h2 g s
  have b: "filter is_sink (ULOG_LEVEL_LOCAL 5 ULOG_VERBOSE True (sample_logger [(''*'', ULOG_INFO)])
        ULOG_WARN ''main'' ''boot'') = [EvSink 0 ULOG_WARN ''main'' ''boot'']"
    by simp
  from dispatch_by_level [of ULOG_DEBUG 3 ULOG_VERBOSE True "sample_logger [(''*'', ULOG_VERBOSE)]" "''main''" "''boot''"]
    h1 h3
  have c: "ULOG_LEVEL_LOCAL 3 ULOG_VERBOSE True (sample_logger [(''*'', ULOG_VERBOSE)])
        ULOG_DEBUG ''main'' ''boot'' = []"
    by simp
  show ?thesis
    using h1 h3 h4 h5 a b c d by simp
qed

text \<open>
  C1 as stated fails at level \<^verbatim>\<open>ULOG_NONE\<close>: with ceiling 5 and the threshold of every
  tag at Error, the level is at most both, yet the call is written at Info and dropped.
\<close>

theorem level_none_dispatched_as_info:
  "\<not> ((filter is_sink (ULOG_LEVEL_LOCAL 5 ULOG_VERBOSE True (sample_logger [(''*'', ULOG_ERROR)])
           ULOG_NONE ''main'' ''boot'') \<noteq> [])
        = (level_val ULOG_NONE
             \<le> min 5 (level_val (ulog_level_get ULOG_VERBOSE
                   (levels (sample_logger [(''*'', ULOG_ERROR)])) ''main''))))"
  by (simp add: ULOG_LEVEL_LOCAL_def ULOG_LEVEL_def ulog_write_def sample_logger_def
      registry_after_def empty_registry_def ulog_level_set_def ulog_level_get_def)

section \<open>Timestamp properties\<close>

lemma ulog_timestamp_base: "snd (ulog_timestamp hz e base) = base"
  by (simp add: ulog_timestamp_def ulog_early_timestamp_def Let_def)

lemma timestamp_calls_base: "timestamp_calls hz es base = base"
  by (induction es arbitrary: base) (simp_all add: ulog_timestamp_base)

text \<open>
  C10. \<^verbatim>\<open>ulog_early_timestamp\<close> is 0 in the RTOS and in the no-OS build; the no-OS
  \<^verbatim>\<open>ulog_timestamp\<close>, its alias, is 0; in the RTOS build the latched base, which
  starts at 0, is still 0 after any run of calls, and every call made before the
  scheduler has started returns 0.
\<close>

theorem early_timestamp_zero:
  "ulog_early_timestamp = 0 \<and> noos_ulog_early_timestamp = 0 \<and> noos_ulog_timestamp = 0
   \<and> timestamp_calls hz es 0 = 0
   \<and> (xTaskGetSchedulerState e = taskSCHEDULER_NOT_STARTED
        \<longrightarrow> fst (ulog_timestamp hz e (timestamp_calls hz es 0)) = 0)"
  by (simp add: timestamp_calls_base ulog_timestamp_def ulog_early_timestamp_def
      noos_ulog_early_timestamp_def noos_ulog_timestamp_def)

theorem early_timestamp_zero_witness:
  "xTaskGetSchedulerState env_early = taskSCHEDULER_NOT_STARTED
   \<and> fst (ulog_timestamp 100 env_early (timestamp_calls 100 [env_running 5] 0)) = 0"
proof -
  have s: "xTaskGetSchedulerState env_early = taskSCHEDULER_NOT_STARTED"
    by (simp add: env_early_def)
  from early_timestamp_zero [of 100 "[env_running 5]" env_early] s show ?thesis
    by blast
qed

lemma ulog_timestamp_active:
  "xTaskGetSchedulerState e \<noteq> taskSCHEDULER_NOT_STARTED \<Longrightarrow>
   ulog_timestamp hz e base = (base + tick_count e * of_nat (1000 div hz), base)"
  by (simp add: ulog_timestamp_def ulog_early_timestamp_def Let_def)

text \<open>
  C9, as amended. For two successive calls on the Scheduler-Active path, if the tick count
  read by the later call is not below the one read by the earlier call, and the later
  timestamp \<^verbatim>\<open>base + tick_count * (1000 / configTICK_RATE_HZ)\<close> still fits in 32 bits,
  then the later call does not return less than the earlier one.
\<close>

theorem timestamp_monotone_no_wrap:
  assumes hz: "0 < hz"
      and a1: "xTaskGetSchedulerState e1 \<noteq> taskSCHEDULER_NOT_STARTED"
      and a2: "xTaskGetSchedulerState e2 \<noteq> taskSCHEDULER_NOT_STARTED"
      and ticks: "tick_count e1 \<le> tick_count e2"
      and fits: "unat base + unat (tick_count e2) * (1000 div hz) < 2 ^ 32"
  shows "fst (ulog_timestamp hz e1 base)
         \<le> fst (ulog_timestamp hz e2 (snd (ulog_timestamp hz e1 base)))"
proof -
  let ?f = "1000 div hz"
  have le: "unat (tick_count e1) \<le> unat (tick_count e2)"
    using ticks by (simp add: word_le_nat_alt)
  have m1: "unat (tick_count e1) * ?f \<le> unat (tick_count e2) * ?f"
    using le by (rule mult_le_mono1)
  have u2: "unat (base + tick_count e2 * of_nat ?f) = unat base + unat (tick_count e2) * ?f"
    using fits by (simp add: unat_word_ariths unat_of_nat mod_mult_right_eq mod_add_right_eq)
  have fits1: "unat base + unat (tick_count e1) * ?f < 2 ^ 32"
    using fits m1 by linarith
  have u1: "unat (base + tick_count e1 * of_nat ?f) = unat base + unat (tick_count e1) * ?f"
    using fits1 by (simp add: unat_word_ariths unat_of_nat mod_mult_right_eq mod_add_right_eq)
  show ?thesis
    using a1 a2 m1 by (simp add: ulog_timestamp_active word_le_nat_alt u1 u2)
qed

theorem timestamp_monotone_no_wrap_witness:
  "(0::nat) < 100
   \<and> xTaskGetSchedulerState (env_running 5) \<noteq> taskSCHEDULER_NOT_STARTED
   \<and> xTaskGetSchedulerState (env_running 7) \<noteq> taskSCHEDULER_NOT_STARTED
   \<and> tick_count (env_running 5) \<le> tick_count (env_running 7)
   \<and> unat (0 :: uint32_t) + unat (tick_count (env_running 7)) * (1000 div 100) < 2 ^ 32
   \<and> fst (ulog_timestamp 100 (env_running 5) 0)
       \<le> fst (ulog_timestamp 100 (env_running 7) (snd (ulog_timestamp 100 (env_running 5) 0)))"
proof -
  have h0: "(0::nat) < 100"
    by simp
  have h1: "xTaskGetSchedulerState (env_running 5) \<noteq> taskSCHEDULER_NOT_STARTED"
    and h2: "xTaskGetSchedulerState (env_running 7) \<noteq> taskSCHEDULER_NOT_STARTED"
    and h3: "tick_count (env_running 5) \<le> tick_count (env_running 7)"
    and h4: "unat (0 :: uint32_t) + unat (tick_count (env_running 7)) * (1000 div 100) < 2 ^ 32"
    by (simp_all add: env_running_def tick_count_def)
  from timestamp_monotone_no_wrap [OF h0 h1 h2 h3 h4] h0 h1 h2 h3 h4 show ?thesis
    by blast
qed

text \<open>
  C9 as stated fails when the product wraps: at 100 ticks per second, the call at tick
  429496729 returns 4294967290 and the call one tick later returns 4.
\<close>

theorem timestamp_wraps:
  "\<not> fst (ulog_timestamp 100 (env_running 429496729) 0)
       \<le> fst (ulog_timestamp 100 (env_running 429496730)
               (snd (ulog_timestamp 100 (env_running 429496729) 0)))"
  by (simp add: ulog_timestamp_def ulog_early_timestamp_def env_running_def tick_count_def)

text \<open>
  The POSIX build's timestamp behaves the same way: it does not decrease while the
  millisecond count fits in 32 bits, and wraps after that.
\<close>

lemma uint_word_of_int_32:
  "0 \<le> x \<Longrightarrow> x < 2 ^ 32 \<Longrightarrow> uint (word_of_int x :: uint32_t) = x"
  by (simp add: uint_word_of_int take_bit_int_eq_self)

lemma linux_timestamp_no_wrap:
  assumes "0 \<le> s1" "0 \<le> n1"
    and later: "s1 * 1000 + n1 div 1000000 \<le> s2 * 1000 + n2 div 1000000"
    and fits: "s2 * 1000 + n2 div 1000000 < 2 ^ 32"
  shows "linux_ulog_timestamp s1 n1 \<le> linux_ulog_timestamp s2 n2"
proof -
  define x1 where "x1 = s1 * 1000 + n1 div 1000000"
  define x2 where "x2 = s2 * 1000 + n2 div 1000000"
  have a: "0 \<le> x1"
    using assms(1,2) by (simp add: x1_def pos_imp_zdiv_nonneg_iff)
  have le: "x1 \<le> x2" and lt: "x2 < 2 ^ 32"
    using later fits by (simp_all add: x1_def x2_def)
  have "uint (word_of_int x1 :: uint32_t) = x1" "uint (word_of_int x2 :: uint32_t) = x2"
    using a le lt by (simp_all add: uint_word_of_int_32)
  then have "(word_of_int x1 :: uint32_t) \<le> word_of_int x2"
    using le by (simp only: word_le_def)
  then show ?thesis
    by (simp only: linux_ulog_timestamp_def x1_def x2_def)
qed

lemma linux_timestamp_wraps:
  "\<not> linux_ulog_timestamp 4294967 295000000 \<le> linux_ulog_timestamp 4294968 0"
  by (simp add: linux_ulog_timestamp_def)

section \<open>Buffer formatter properties\<close>

lemma hex_digit_not_NUL: "d < 16 \<Longrightarrow> hex_digit d \<noteq> NUL"
proof -
  assume "d < 16"
  then have "hex_digit d \<in> set ''0123456789abcdef''"
    unfolding hex_digit_def by (intro nth_mem) simp
  then show ?thesis
    by (auto simp: NUL_def)
qed

lemma fmt_02x_byte:
  assumes "0 \<le> v" "v < 256"
  shows "fmt_02x v = [hex_digit (nat (v div 16)), hex_digit (nat (v mod 16))]"
proof -
  have m: "v mod 4294967296 = v"
    using assms by simp
  show ?thesis
  proof (cases "v < 16")
    case True
    then have "to_hex v = [hex_digit (nat v)]"
      by (simp add: to_hex.simps)
    moreover have "v div 16 = 0" "v mod 16 = v"
      using True assms by simp_all
    ultimately show ?thesis
      by (simp add: fmt_02x_def m hex_digit_def Let_def)
  next
    case False
    have "v div 16 < 16"
      using assms by simp
    then have "to_hex (v div 16) = [hex_digit (nat (v div 16))]"
      by (simp add: to_hex.simps)
    then have "to_hex v = [hex_digit (nat (v div 16)), hex_digit (nat (v mod 16))]"
      using False by (subst to_hex.simps) simp
    then show ?thesis
      by (simp add: fmt_02x_def m Let_def)
  qed
qed

lemma fmt_02x_byte_props:
  assumes "0 \<le> v" "v < 256"
  shows "length (fmt_02x v) = 2" and "NUL \<notin> set (fmt_02x v)"
proof -
  have d: "nat (v div 16) < 16" "nat (v mod 16) < 16"
    using assms by simp_all
  show "length (fmt_02x v) = 2"
    by (simp add: fmt_02x_byte [OF assms])
  show "NUL \<notin> set (fmt_02x v)"
    using hex_digit_not_NUL [OF d(1)] hex_digit_not_NUL [OF d(2)]
    by (auto simp: fmt_02x_byte [OF assms])
qed

lemma sprintf_at_fits:
  assumes "off + length s + 1 \<le> length buf"
  shows "\<exists>buf'. sprintf_at off s buf = Some buf' \<and> length buf' = length buf
           \<and> take (off + length s) buf' = take off buf @ s \<and> buf' ! (off + length s) = NUL"
proof -
  let ?b = "take off buf @ s @ [NUL] @ drop (off + length s + 1) buf"
  have l: "length (take off buf) = off"
    using assms by simp
  have "length ?b = length buf"
    using assms by simp
  moreover have "take (off + length s) ?b = take off buf @ s"
    using l by simp
  moreover have "?b ! (off + length s) = NUL"
    using l by (simp add: nth_append)
  ultimately show ?thesis
    using assms by (simp add: sprintf_at_def)
qed

lemma c_str_upto:
  assumes "k < length buf" "buf ! k = NUL"
  shows "c_str buf = Inr (takeWhile (\<lambda>c. c \<noteq> NUL) (take k buf))"
proof -
  have split: "buf = take k buf @ NUL # drop (Suc k) buf"
    using assms by (metis id_take_nth_drop)
  have "NUL \<in> set buf"
    using assms by (metis nth_mem)
  moreover have "takeWhile (\<lambda>c. c \<noteq> NUL) buf = takeWhile (\<lambda>c. c \<noteq> NUL) (take k buf)"
    by (subst split) (simp add: takeWhile_tail)
  ultimately show ?thesis
    by (simp add: c_str_def)
qed

lemma c_str_at:
  assumes "k < length buf" "buf ! k = NUL" "NUL \<notin> set (take k buf)"
  shows "c_str buf = Inr (take k buf)"
proof -
  have "takeWhile (\<lambda>c. c \<noteq> NUL) (take k buf) = take k buf"
    using assms(3) by (auto simp: takeWhile_eq_all_conv)
  then show ?thesis
    by (simp add: c_str_upto [OF assms(1,2)])
qed

lemma fmt_02x_uint: "fmt_02x (uint (b :: byte)) = hex2 b"
proof -
  have b: "0 \<le> uint b" "uint b < 256"
    using uint_lt2p [of b] by simp_all
  have "nat (uint b div 16) = unat b div 16" "nat (uint b mod 16) = unat b mod 16"
    by (simp_all add: nat_div_distrib nat_mod_distrib)
  then show ?thesis
    by (simp add: fmt_02x_byte [OF b] hex2_def)
qed

lemma hex2_props: "length (hex2 b) = 2" "NUL \<notin> set (hex2 b)"
  using fmt_02x_byte_props [of "uint b"] uint_lt2p [of b]
  by (simp_all add: fmt_02x_uint)

lemma NUL_not_space: "NUL \<noteq> CHR '' ''"
  by (simp add: NUL_def)

lemma spec_hex_line_props:
  "length (spec_hex_line bs) = 3 * length bs" "NUL \<notin> set (spec_hex_line bs)"
  by (induction bs) (simp_all add: spec_hex_line_def hex2_props NUL_not_space)

lemma spec_hex_line_snoc: "spec_hex_line (bs @ [b]) = spec_hex_line bs @ hex2 b @ '' ''"
  by (simp add: spec_hex_line_def)

lemma hex_for_append:
  "hex_for sg pl (xs @ ys) hb
   = (case hex_for sg pl xs hb of None \<Rightarrow> None | Some hb' \<Rightarrow> hex_for sg pl ys hb')"
  by (induction xs arbitrary: hb) (simp_all split: option.splits)

lemma hex_for_plain:
  assumes plain: "\<forall>i<n. char_arg sg (pl i) = uint (pl i)"
    and n: "n \<le> 16" and len: "length hb = 49"
  shows "\<exists>hb'. hex_for sg pl [0 ..< n] hb = Some hb' \<and> length hb' = 49
           \<and> take (3 * n) hb' = spec_hex_line (map pl [0 ..< n])
           \<and> (0 < n \<longrightarrow> hb' ! (3 * n) = NUL)"
  using plain n
proof (induction n)
  case 0
  then show ?case
    by (simp add: len spec_hex_line_def)
next
  case (Suc n)
  then obtain hb1 where run: "hex_for sg pl [0 ..< n] hb = Some hb1" and l1: "length hb1 = 49"
    and t1: "take (3 * n) hb1 = spec_hex_line (map pl [0 ..< n])"
    by auto
  define s where "s = fmt_02x (char_arg sg (pl n)) @ '' ''"
  have s: "s = hex2 (pl n) @ '' ''"
    using Suc.prems(1) by (simp add: s_def fmt_02x_uint)
  have ls: "length s = 3"
    by (simp add: s hex2_props)
  have "3 * n + length s + 1 \<le> length hb1"
    using Suc.prems(2) l1 ls by simp
  from sprintf_at_fits [OF this] obtain hb2 where w: "sprintf_at (3 * n) s hb1 = Some hb2"
    and l2: "length hb2 = 49" and t2: "take (3 * n + length s) hb2 = take (3 * n) hb1 @ s"
    and z2: "hb2 ! (3 * n + length s) = NUL"
    using l1 by auto
  have next_off: "3 * Suc n = 3 * n + length s"
    using ls by simp
  have "hex_for sg pl [0 ..< Suc n] hb = Some hb2"
    using run w by (simp add: hex_for_append s_def)
  moreover have "take (3 * Suc n) hb2 = spec_hex_line (map pl [0 ..< n]) @ s"
    unfolding next_off t2 t1 by (rule refl)
  then have "take (3 * Suc n) hb2 = spec_hex_line (map pl [0 ..< Suc n])"
    by (simp add: spec_hex_line_snoc s)
  moreover have "hb2 ! (3 * Suc n) = NUL"
    unfolding next_off by (rule z2)
  ultimately show ?case
    using l2 by simp
qed

lemma hex_render_plain:
  assumes plain: "\<forall>i<n. char_arg sg (pl i) = uint (pl i)"
    and n: "1 \<le> n" "n \<le> 16" and len: "length hb = 49"
  shows "\<exists>hb'. hex_render sg pl buffer n hb = Inr (spec_hex_line (map pl [0 ..< n]), hb')
           \<and> length hb' = 49"
proof -
  from hex_for_plain [OF plain n(2) len] n(1)
  obtain hb' where run: "hex_for sg pl [0 ..< n] hb = Some hb'" and l: "length hb' = 49"
    and t: "take (3 * n) hb' = spec_hex_line (map pl [0 ..< n])" and z: "hb' ! (3 * n) = NUL"
    by auto
  have "c_str hb' = Inr (take (3 * n) hb')"
  proof (rule c_str_at)
    show "3 * n < length hb'" using l n(2) by simp
    show "hb' ! (3 * n) = NUL" by (rule z)
    show "NUL \<notin> set (take (3 * n) hb')" by (simp add: t spec_hex_line_props)
  qed
  then show ?thesis
    using run l t by (simp add: hex_render_def)
qed

lemma spec_chunks_step:
  "0 < len \<Longrightarrow> spec_chunks line p len
     = (p, min 16 len, line p (min 16 len)) # spec_chunks line (p + min 16 len) (len - min 16 len)"
  by (subst spec_chunks.simps) simp

lemma spec_chunks_0: "spec_chunks line p 0 = []"
  by (subst spec_chunks.simps) simp

lemma spec_chunks_40:
  "spec_chunks line p 40
   = [(p, 16, line p 16), (p + 16, 16, line (p + 16) 16), (p + 32, 8, line (p + 32) 8)]"
  by (simp add: spec_chunks_step spec_chunks_0 add.commute)

lemma dump_loop_refines:
  assumes step: "\<forall>p n cb. ok cb \<longrightarrow> 1 \<le> n \<longrightarrow> n \<le> 16 \<longrightarrow>
      (\<exists>cb'. render (line_source mem p n) p n cb = Inr (line p n, cb') \<and> ok cb')"
    and ok: "ok cb" and nz: "buff_len \<noteq> 0"
  shows "dump_loop render mem buffer buff_len cb = Inr (spec_chunks line buffer (unat buff_len))"
  using step ok nz
proof (induction render mem buffer buff_len cb rule: dump_loop.induct)
  case (1 render mem buffer buff_len cb)
  note step = "1.prems"(1) and ok = "1.prems"(2)
  have pos: "0 < unat buff_len"
    using "1.prems"(3) by (simp add: unat_gt_0)
  show ?case
  proof (cases "buff_len > of_nat BYTES_PER_LINE")
    case True
    then have gt: "16 < unat buff_len"
      by (simp add: BYTES_PER_LINE_def word_less_nat_alt)
    then have ge: "(16 :: 16 word) \<le> buff_len"
      by (simp add: word_le_nat_alt)
    have u: "unat (buff_len - 16) = unat buff_len - 16"
      using ge by (simp add: unat_sub)
    have nz: "buff_len - 16 \<noteq> 0"
      using gt u by (metis unat_0 zero_less_diff less_irrefl)
    obtain cb' where r: "render (line_source mem buffer 16) buffer 16 cb = Inr (line buffer 16, cb')"
      and ok': "ok cb'"
      using step ok by (metis one_le_numeral order_refl)
    have ih: "dump_loop render mem (buffer + 16) (buff_len - 16) cb'
        = Inr (spec_chunks line (buffer + 16) (unat (buff_len - 16)))"
      using "1.IH" [OF refl _ refl _ step, of "(line buffer 16, cb')"] True nz r ok'
      by (simp add: BYTES_PER_LINE_def)
    have m: "min 16 (unat buff_len) = 16"
      using gt by simp
    show ?thesis
      apply (subst dump_loop.simps)
      using True nz ih r u pos by (simp add: Let_def BYTES_PER_LINE_def spec_chunks_step m)
  next
    case False
    then have le: "unat buff_len \<le> 16"
      by (simp add: BYTES_PER_LINE_def word_less_nat_alt)
    obtain cb' where r: "render (line_source mem buffer (unat buff_len)) buffer (unat buff_len) cb
          = Inr (line buffer (unat buff_len), cb')"
      using step ok le pos by (metis Suc_leI One_nat_def)
    have m: "min 16 (unat buff_len) = unat buff_len"
      using le by simp
    show ?thesis
      apply (subst dump_loop.simps)
      using False r pos by (simp add: Let_def BYTES_PER_LINE_def spec_chunks_step m spec_chunks_0)
  qed
qed

lemma line_source_mem: "line_source mem p n = (\<lambda>i. mem (p + i))"
  by (simp add: line_source_def uptr_byte_accessible_def)

text \<open>
  Where the promoted byte is the byte itself (plain \<^verbatim>\<open>char\<close> unsigned, or no byte from
  128 on), the hex renderer completes for every length, and its calls are those of the
  specified chunking with the specified line for each chunk.
\<close>

lemma hex_dump_plain:
  assumes plain: "\<forall>a. char_arg sg (mem a) = uint (mem a)"
  shows "ulog_buffer_hex_internal sg stack mem buffer buff_len
     = Inr (spec_chunks (\<lambda>p n. spec_hex_line (bytes_at mem p n)) buffer (unat buff_len))"
proof (cases "buff_len = 0")
  case True
  then show ?thesis
    by (simp add: ulog_buffer_hex_internal_def spec_chunks_0)
next
  case False
  have "dump_loop (hex_render sg) mem buffer buff_len (map stack [0 ..< 3 * BYTES_PER_LINE + 1])
      = Inr (spec_chunks (\<lambda>p n. spec_hex_line (bytes_at mem p n)) buffer (unat buff_len))"
  proof (rule dump_loop_refines [where ok = "\<lambda>cb. length cb = 49"], intro allI impI)
    fix p n :: nat and cb :: "char list"
    assume a: "length cb = 49" "1 \<le> n" "n \<le> 16"
    have "\<forall>i<n. char_arg sg (mem (p + i)) = uint (mem (p + i))"
      using plain by simp
    from hex_render_plain [OF this a(2) a(3) a(1), of p]
    show "\<exists>cb'. hex_render sg (line_source mem p n) p n cb
            = Inr (spec_hex_line (bytes_at mem p n), cb') \<and> length cb' = 49"
      by (simp add: line_source_mem bytes_at_def)
  qed (simp_all add: BYTES_PER_LINE_def False)
  then show ?thesis
    using False by (simp add: ulog_buffer_hex_internal_def)
qed

lemma sprintf_adv_written:
  assumes w: "written acc st" and fits: "length acc + length s + 1 \<le> 82"
  shows "\<exists>st'. sprintf_adv s st = Some st' \<and> written (acc @ s) st' \<and> fst st' ! snd st' = NUL"
proof -
  have l0: "length (fst st) = 82" and o0: "snd st = length acc"
    and t0: "take (length acc) (fst st) = acc"
    using w by (auto simp: written_def)
  have "length acc + length s + 1 \<le> length (fst st)"
    using fits l0 by simp
  from sprintf_at_fits [OF this] obtain hb where a: "sprintf_at (length acc) s (fst st) = Some hb"
    and l: "length hb = length (fst st)"
    and t: "take (length acc + length s) hb = take (length acc) (fst st) @ s"
    and z: "hb ! (length acc + length s) = NUL"
    by auto
  have "sprintf_adv s st = Some (hb, length acc + length s)"
    by (simp add: sprintf_adv_def a o0)
  moreover have "written (acc @ s) (hb, length acc + length s)"
    unfolding written_def using l l0 t t0 by simp
  ultimately show ?thesis
    using z by simp
qed

lemma hd_hex_for_written:
  "written acc st \<Longrightarrow> length acc + length (concat (map (hd_cell sg pl n) is)) + 1 \<le> 82 \<Longrightarrow>
   \<exists>st'. hd_hex_for sg pl n is st = Some st' \<and> written (acc @ concat (map (hd_cell sg pl n) is)) st'"
proof (induction "is" arbitrary: acc st)
  case Nil
  then show ?case by simp
next
  case (Cons i "is")
  let ?a = "if i AND 7 = 0 then '' '' else ''''"
  let ?b = "if i < n then '' '' @ fmt_02x (char_arg sg (pl i)) else ''   ''"
  have cell: "hd_cell sg pl n i = ?a @ ?b"
    by (simp add: hd_cell_def)
  have room: "length acc + length ?a + length ?b + length (concat (map (hd_cell sg pl n) is)) + 1 \<le> 82"
    using Cons.prems(2) by (simp add: cell)
  obtain st1 where s1: "(if i AND 7 = 0 then sprintf_adv '' '' st else Some st) = Some st1"
    and w1: "written (acc @ ?a) st1"
  proof (cases "i AND 7 = 0")
    case True
    have "length acc + length '' '' + 1 \<le> 82"
      using room True by simp
    from sprintf_adv_written [OF Cons.prems(1) this] True that show ?thesis
      by auto
  next
    case False
    then show ?thesis
      using that [of st] Cons.prems(1) by simp
  qed
  have "length (acc @ ?a) + length ?b + 1 \<le> 82"
    using room by simp
  from sprintf_adv_written [OF w1 this] obtain st2 where s2: "sprintf_adv ?b st1 = Some st2"
    and w2: "written ((acc @ ?a) @ ?b) st2"
    by auto
  have "length ((acc @ ?a) @ ?b) + length (concat (map (hd_cell sg pl n) is)) + 1 \<le> 82"
    using room by simp
  from Cons.IH [OF w2 this] obtain st' where s3: "hd_hex_for sg pl n is st2 = Some st'"
    and w3: "written (((acc @ ?a) @ ?b) @ concat (map (hd_cell sg pl n) is)) st'"
    by auto
  have "hd_hex_for sg pl n (i # is) st = Some st'"
    using s1 s2 s3 by (simp split: if_splits)
  moreover have "written (acc @ concat (map (hd_cell sg pl n) (i # is))) st'"
    using w3 by (simp add: cell)
  ultimately show ?case
    by blast
qed

lemma hd_char_for_written:
  "written acc st \<Longrightarrow> length acc + length is + 1 \<le> 82 \<Longrightarrow>
   \<exists>st'. hd_char_for sg pl is st = Some st' \<and> written (acc @ map (hd_margin sg pl) is) st'"
proof (induction "is" arbitrary: acc st)
  case Nil
  then show ?case by simp
next
  case (Cons i "is")
  let ?c = "[hd_margin sg pl i]"
  have "length acc + length ?c + 1 \<le> 82"
    using Cons.prems(2) by simp
  from sprintf_adv_written [OF Cons.prems(1) this] obtain st1
    where s1: "sprintf_adv ?c st = Some st1" and w1: "written (acc @ ?c) st1"
    by auto
  have "length (acc @ ?c) + length is + 1 \<le> 82"
    using Cons.prems(2) by simp
  from Cons.IH [OF w1 this] obtain st' where s2: "hd_char_for sg pl is st1 = Some st'"
    and w2: "written ((acc @ ?c) @ map (hd_margin sg pl) is) st'"
    by auto
  have "hd_char_for sg pl (i # is) st = Some st'"
    using s1 s2 by (simp add: hd_margin_def split: if_splits)
  then show ?case
    using w2 by simp
qed

lemma hexdump_fill_written:
  assumes len: "length hb = 82"
    and room: "length (fmt_p buffer) + length (concat (map (hd_cell sg pl n) [0 ..< 16])) + n + 6 \<le> 82"
  shows "\<exists>st. hexdump_fill sg fmt_p pl buffer n hb = Some st
    \<and> written (fmt_p buffer @ '' '' @ concat (map (hd_cell sg pl n) [0 ..< 16]) @ ''  |''
                @ map (hd_margin sg pl) [0 ..< n] @ ''|'') st
    \<and> fst st ! snd st = NUL"
proof -
  let ?cells = "concat (map (hd_cell sg pl n) [0 ..< 16])"
  let ?margin = "map (hd_margin sg pl) [0 ..< n]"
  have w0: "written [] (hb, 0)"
    by (simp add: written_def len)
  have "length [] + length (fmt_p buffer @ '' '') + 1 \<le> 82"
    using room by simp
  from sprintf_adv_written [OF w0 this] obtain st1
    where s1: "sprintf_adv (fmt_p buffer @ '' '') (hb, 0) = Some st1"
      and w1: "written (fmt_p buffer @ '' '') st1"
    by auto
  have "length (fmt_p buffer @ '' '') + length ?cells + 1 \<le> 82"
    using room by simp
  from hd_hex_for_written [OF w1 this] obtain st2
    where s2: "hd_hex_for sg pl n [0 ..< 16] st1 = Some st2"
      and w2: "written ((fmt_p buffer @ '' '') @ ?cells) st2"
    by auto
  have "length ((fmt_p buffer @ '' '') @ ?cells) + length ''  |'' + 1 \<le> 82"
    using room by simp
  from sprintf_adv_written [OF w2 this] obtain st3
    where s3: "sprintf_adv ''  |'' st2 = Some st3"
      and w3: "written (((fmt_p buffer @ '' '') @ ?cells) @ ''  |'') st3"
    by auto
  have "length (((fmt_p buffer @ '' '') @ ?cells) @ ''  |'') + length [0 ..< n] + 1 \<le> 82"
    using room by simp
  from hd_char_for_written [OF w3 this, of sg pl] obtain st4
    where s4: "hd_char_for sg pl [0 ..< n] st3 = Some st4"
      and w4: "written ((((fmt_p buffer @ '' '') @ ?cells) @ ''  |'') @ ?margin) st4"
    by blast
  have "length ((((fmt_p buffer @ '' '') @ ?cells) @ ''  |'') @ ?margin) + length ''|'' + 1 \<le> 82"
    using room by simp
  from sprintf_adv_written [OF w4 this] obtain st5
    where s5: "sprintf_adv ''|'' st4 = Some st5"
      and w5: "written (((((fmt_p buffer @ '' '') @ ?cells) @ ''  |'') @ ?margin) @ ''|'') st5"
      and z5: "fst st5 ! snd st5 = NUL"
    by auto
  have "hexdump_fill sg fmt_p pl buffer n hb = Some st5"
    using s1 s2 s3 s4 s5 by (simp add: hexdump_fill_def BYTES_PER_LINE_def)
  then show ?thesis
    using w5 z5 by simp
qed

lemma upt_16: "[0 ..< 16] = [0, 1, 2, 3, 4, 5, 6, 7, 8, 9, 10, 11, 12, 13, 14, 15 :: nat]"
  by code_simp

lemma upt_0_8: "[0 ..< 8] = [0, 1, 2, 3, 4, 5, 6, 7 :: nat]"
  by code_simp

lemma upt_8_16: "[8 ..< 16] = [8, 9, 10, 11, 12, 13, 14, 15 :: nat]"
  by code_simp

lemma hd_cell_plain:
  assumes "i < n \<longrightarrow> char_arg sg (pl i) = uint (pl i)"
  shows "hd_cell sg pl n i
    = (if i AND 7 = 0 then '' '' else []) @ hexdump_cell (map pl [0 ..< n]) i"
  using assms by (simp add: hd_cell_def hexdump_cell_def fmt_02x_uint)

lemma hexdump_cell_length: "length (hexdump_cell bs i) = 3"
  by (simp add: hexdump_cell_def hex2_props)

lemma hexdump_cell_no_NUL: "NUL \<notin> set (hexdump_cell bs i)"
  using hex2_props(2) [of "bs ! i"] by (simp add: hexdump_cell_def NUL_not_space)

lemma cells_plain:
  assumes plain: "\<forall>i<n. char_arg sg (pl i) = uint (pl i)"
  shows "concat (map (hd_cell sg pl n) [0 ..< 16])
    = '' '' @ concat (map (hexdump_cell (map pl [0 ..< n])) [0 ..< 8]) @ '' ''
      @ concat (map (hexdump_cell (map pl [0 ..< n])) [8 ..< 16])"
proof -
  have c: "hd_cell sg pl n i
      = (if i AND 7 = 0 then '' '' else []) @ hexdump_cell (map pl [0 ..< n]) i" for i
    using plain by (intro hd_cell_plain) simp
  show ?thesis
    unfolding upt_16 upt_0_8 upt_8_16 by (simp add: c)
qed

lemma margin_plain:
  assumes "char_arg sg (pl i) = uint (pl i)"
  shows "hd_margin sg pl i = margin_char (pl i)"
proof -
  have u: "uint (pl i) = int (unat (pl i))"
    by simp
  have p: "isprint (int (unat (pl i))) = (32 \<le> unat (pl i) \<and> unat (pl i) \<le> 126)"
    unfolding isprint_def by linarith
  have c: "fmt_c (int (unat (pl i))) = char_of (unat (pl i))"
    unfolding fmt_c_def by (rule char_of_nat)
  show ?thesis
    unfolding hd_margin_def margin_char_def assms u p c by (rule refl)
qed

lemma margin_char_not_NUL: "margin_char b \<noteq> NUL"
proof (cases "32 \<le> unat b \<and> unat b \<le> 126")
  case True
  have "char_of (unat b) \<noteq> NUL"
  proof
    assume eq: "char_of (unat b) = NUL"
    have "(of_char (char_of (unat b)) :: nat) = unat b mod 256"
      by simp
    then have "(of_char NUL :: nat) = unat b mod 256"
      by (simp only: eq)
    then have "unat b mod 256 = 0"
      by (simp add: NUL_def)
    then show False
      using True by simp
  qed
  then show ?thesis
    using True by (simp add: margin_char_def)
next
  case False
  then show ?thesis
    by (auto simp: margin_char_def NUL_def)
qed

lemma spec_hexdump_line_props:
  assumes "NUL \<notin> set p"
  shows "NUL \<notin> set (spec_hexdump_line p bs)"
    and "length (spec_hexdump_line p bs) = length p + length bs + 55"
proof -
  have "NUL \<noteq> CHR ''|''"
    by (simp add: NUL_def)
  then show "NUL \<notin> set (spec_hexdump_line p bs)"
    using assms by (auto simp: spec_hexdump_line_def hexdump_cell_no_NUL margin_char_not_NUL
        margin_char_not_NUL [symmetric] NUL_not_space)
  show "length (spec_hexdump_line p bs) = length p + length bs + 55"
    by (simp add: spec_hexdump_line_def upt_0_8 upt_8_16 hexdump_cell_length)
qed

lemma hexdump_render_plain:
  assumes plain: "\<forall>i<n. char_arg sg (pl i) = uint (pl i)"
    and n: "n \<le> 16" and len: "length hb = 82"
    and ptr: "length (fmt_p buffer) \<le> 10" "NUL \<notin> set (fmt_p buffer)"
  shows "\<exists>hb'. hexdump_render sg fmt_p pl buffer n hb
           = Inr (spec_hexdump_line (fmt_p buffer) (map pl [0 ..< n]), hb')
         \<and> length hb' = 82"
proof -
  let ?bs = "map pl [0 ..< n]"
  let ?text = "spec_hexdump_line (fmt_p buffer) ?bs"
  have cells: "concat (map (hd_cell sg pl n) [0 ..< 16])
      = '' '' @ concat (map (hexdump_cell ?bs) [0 ..< 8]) @ '' ''
        @ concat (map (hexdump_cell ?bs) [8 ..< 16])"
    by (rule cells_plain [OF plain])
  have lc: "length (concat (map (hd_cell sg pl n) [0 ..< 16])) = 50"
    unfolding cells by (simp add: upt_0_8 upt_8_16 hexdump_cell_length)
  have margin: "map (hd_margin sg pl) [0 ..< n] = map margin_char ?bs"
    using plain by (simp add: margin_plain)
  have "length (fmt_p buffer) + length (concat (map (hd_cell sg pl n) [0 ..< 16])) + n + 6 \<le> 82"
    using ptr(1) n lc by simp
  from hexdump_fill_written [where fmt_p = fmt_p and buffer = buffer and sg = sg and pl = pl
      and n = n, OF len this] obtain st
    where run: "hexdump_fill sg fmt_p pl buffer n hb = Some st"
      and w: "written (fmt_p buffer @ '' '' @ concat (map (hd_cell sg pl n) [0 ..< 16]) @ ''  |''
                @ map (hd_margin sg pl) [0 ..< n] @ ''|'') st"
      and z: "fst st ! snd st = NUL"
    by blast
  have line_eq: "fmt_p buffer @ '' '' @ concat (map (hd_cell sg pl n) [0 ..< 16]) @ ''  |''
                @ map (hd_margin sg pl) [0 ..< n] @ ''|'' = ?text"
    unfolding cells margin by (simp add: spec_hexdump_line_def)
  have w': "written ?text st"
    using w unfolding line_eq .
  have l: "length (fst st) = 82" and o: "snd st = length ?text" and t: "take (snd st) (fst st) = ?text"
    using w' by (auto simp: written_def)
  have "length ?text = length (fmt_p buffer) + n + 55"
    by (simp add: spec_hexdump_line_props(2) [OF ptr(2)])
  then have lt: "snd st < length (fst st)"
    using o l ptr(1) n by simp
  have "c_str (fst st) = Inr (take (snd st) (fst st))"
  proof (rule c_str_at)
    show "snd st < length (fst st)" by (rule lt)
    show "fst st ! snd st = NUL" by (rule z)
    show "NUL \<notin> set (take (snd st) (fst st))"
      unfolding t by (rule spec_hexdump_line_props(1) [OF ptr(2)])
  qed
  then show ?thesis
    using run l t by (simp add: hexdump_render_def)
qed

text \<open>
  Under the same condition, and where \<^verbatim>\<open>%p\<close> prints at most the ten characters that
  \<^verbatim>\<open>hd_buffer\<close> allows for and no NUL, the same holds of the hexdump renderer.
\<close>

lemma hexdump_dump_plain:
  assumes plain: "\<forall>a. char_arg sg (mem a) = uint (mem a)"
    and ptr: "\<forall>a. length (fmt_p a) \<le> 10 \<and> NUL \<notin> set (fmt_p a)"
  shows "ulog_buffer_hexdump_internal sg fmt_p stack mem buffer buff_len
     = Inr (spec_chunks (\<lambda>p n. spec_hexdump_line (fmt_p p) (bytes_at mem p n)) buffer
              (unat buff_len))"
proof (cases "buff_len = 0")
  case True
  then show ?thesis
    by (simp add: ulog_buffer_hexdump_internal_def spec_chunks_0)
next
  case False
  have "dump_loop (hexdump_render sg fmt_p) mem buffer buff_len
          (map stack [0 ..< 10 + 3 + BYTES_PER_LINE * 3 + 3 + BYTES_PER_LINE + 1 + 1])
      = Inr (spec_chunks (\<lambda>p n. spec_hexdump_line (fmt_p p) (bytes_at mem p n)) buffer
               (unat buff_len))"
  proof (rule dump_loop_refines [where ok = "\<lambda>cb. length cb = 82"], intro allI impI)
    fix p n :: nat and cb :: "char list"
    assume a: "length cb = 82" "1 \<le> n" "n \<le> 16"
    have pl: "\<forall>i<n. char_arg sg (mem (p + i)) = uint (mem (p + i))"
      using plain by simp
    have "length (fmt_p p) \<le> 10" "NUL \<notin> set (fmt_p p)"
      using ptr by simp_all
    from hexdump_render_plain [where sg = sg and pl = "\<lambda>i. mem (p + i)" and n = n and hb = cb
        and fmt_p = fmt_p and buffer = p, OF pl a(3) a(1) this]
    show "\<exists>cb'. hexdump_render sg fmt_p (line_source mem p n) p n cb
            = Inr (spec_hexdump_line (fmt_p p) (bytes_at mem p n), cb') \<and> length cb' = 82"
      by (simp add: line_source_mem bytes_at_def)
  qed (simp_all add: BYTES_PER_LINE_def False)
  then show ?thesis
    using False by (simp add: ulog_buffer_hexdump_internal_def)
qed

text \<open>
  The char renderer never stores past \<^verbatim>\<open>char_buffer\<close>: it completes for every input,
  with the specified chunking.
\<close>

lemma char_of_minus_256: "char_of (x - 256 :: int) = char_of x"
proof -
  have "take_bit 8 (x - 256) = take_bit 8 x"
    by (simp add: take_bit_eq_mod)
  then have "char_of (take_bit 8 (x - 256)) = char_of (take_bit 8 x)"
    by simp
  then show ?thesis
    by (simp only: char_of_take_bit_eq order_refl)
qed

lemma fmt_c_char_arg: "fmt_c (char_arg sg b) = char_of (unat b)"
proof -
  have "char_of (uint b) = char_of (unat b)"
    using char_of_nat [of "unat b", where ?'a = int] by simp
  then show ?thesis
    by (simp add: fmt_c_def char_arg_def char_of_minus_256)
qed

lemma char_for_append:
  "char_for sg pl (xs @ ys) cb
   = (case char_for sg pl xs cb of None \<Rightarrow> None | Some cb' \<Rightarrow> char_for sg pl ys cb')"
  by (induction xs arbitrary: cb) (simp_all split: option.splits)

lemma char_for_run:
  assumes n: "n \<le> 16" and len: "length cb = 17"
  shows "\<exists>cb'. char_for sg pl [0 ..< n] cb = Some cb' \<and> length cb' = 17
           \<and> take n cb' = map (\<lambda>b. char_of (unat b)) (map pl [0 ..< n])
           \<and> (0 < n \<longrightarrow> cb' ! n = NUL)"
  using n
proof (induction n)
  case 0
  then show ?case
    by (simp add: len)
next
  case (Suc n)
  then obtain cb1 where run: "char_for sg pl [0 ..< n] cb = Some cb1" and l1: "length cb1 = 17"
    and t1: "take n cb1 = map (\<lambda>b. char_of (unat b)) (map pl [0 ..< n])"
    by auto
  define s where "s = [fmt_c (char_arg sg (pl n))]"
  have s: "s = [char_of (unat (pl n))]"
    by (simp add: s_def fmt_c_char_arg)
  have ls: "length s = 1"
    by (simp add: s)
  have "n + length s + 1 \<le> length cb1"
    using Suc.prems l1 ls by simp
  from sprintf_at_fits [OF this] obtain cb2 where w: "sprintf_at n s cb1 = Some cb2"
    and l2: "length cb2 = 17" and t2: "take (n + length s) cb2 = take n cb1 @ s"
    and z2: "cb2 ! (n + length s) = NUL"
    using l1 by auto
  have next_off: "Suc n = n + length s"
    using ls by simp
  have "char_for sg pl [0 ..< Suc n] cb = Some cb2"
    using run w by (simp add: char_for_append s_def)
  moreover have "take (Suc n) cb2 = map (\<lambda>b. char_of (unat b)) (map pl [0 ..< n]) @ s"
    unfolding next_off t2 t1 by (rule refl)
  then have "take (Suc n) cb2 = map (\<lambda>b. char_of (unat b)) (map pl [0 ..< Suc n])"
    by (simp add: s)
  moreover have "cb2 ! Suc n = NUL"
    unfolding next_off by (rule z2)
  ultimately show ?case
    using l2 by simp
qed

lemma char_render_run:
  assumes n: "1 \<le> n" "n \<le> 16" and len: "length cb = 17"
  shows "\<exists>cb'. char_render sg pl buffer n cb = Inr (char_line (map pl [0 ..< n]), cb')
           \<and> length cb' = 17"
proof -
  from char_for_run [OF n(2) len, of sg pl] n(1)
  obtain cb' where run: "char_for sg pl [0 ..< n] cb = Some cb'" and l: "length cb' = 17"
    and t: "take n cb' = map (\<lambda>b. char_of (unat b)) (map pl [0 ..< n])" and z: "cb' ! n = NUL"
    by auto
  have "n < length cb'"
    using l n(2) by simp
  from c_str_upto [OF this z] have "c_str cb' = Inr (char_line (map pl [0 ..< n]))"
    by (simp only: t char_line_def)
  then show ?thesis
    using run l by (simp add: char_render_def)
qed

lemma char_dump_run:
  "ulog_buffer_char_internal sg stack mem buffer buff_len
     = Inr (spec_chunks (\<lambda>p n. char_line (bytes_at mem p n)) buffer (unat buff_len))"
proof (cases "buff_len = 0")
  case True
  then show ?thesis
    by (simp add: ulog_buffer_char_internal_def spec_chunks_0)
next
  case False
  have "dump_loop (char_render sg) mem buffer buff_len (map stack [0 ..< BYTES_PER_LINE + 1])
      = Inr (spec_chunks (\<lambda>p n. char_line (bytes_at mem p n)) buffer (unat buff_len))"
  proof (rule dump_loop_refines [where ok = "\<lambda>cb. length cb = 17"], intro allI impI)
    fix p n :: nat and cb :: "char list"
    assume a: "length cb = 17" "1 \<le> n" "n \<le> 16"
    from char_render_run [OF a(2) a(3) a(1), of sg "\<lambda>i. mem (p + i)" p]
    show "\<exists>cb'. char_render sg (line_source mem p n) p n cb
            = Inr (char_line (bytes_at mem p n), cb') \<and> length cb' = 17"
      by (simp add: line_source_mem bytes_at_def)
  qed (simp_all add: BYTES_PER_LINE_def False)
  then show ?thesis
    using False by (simp add: ulog_buffer_char_internal_def)
qed

text \<open>
  Length 0 and length 40 through the dispatch gate: no \<^verbatim>\<open>ULOG_LEVEL\<close> call for length
  0; for length 40, where the renderer completes, exactly three calls, with the lines for
  the 16 bytes at \<open>buffer\<close>, the 16 bytes at \<open>buffer + 16\<close> and the 8 bytes at
  \<open>buffer + 32\<close>.
\<close>

lemma dump_length_0:
  "ulog_buffer_hex_internal sg stack mem buffer 0 = Inr []"
  "ulog_buffer_char_internal sg stack mem buffer 0 = Inr []"
  "ulog_buffer_hexdump_internal sg fmt_p stack mem buffer 0 = Inr []"
  "emit_lines d acq lg log_level tag (ulog_buffer_hex_internal sg stack mem buffer 0) = Inr []"
  "emit_lines d acq lg log_level tag (ulog_buffer_char_internal sg stack mem buffer 0) = Inr []"
  "emit_lines d acq lg log_level tag (ulog_buffer_hexdump_internal sg fmt_p stack mem buffer 0)
   = Inr []"
  by (simp_all add: ulog_buffer_hex_internal_def ulog_buffer_char_internal_def
      ulog_buffer_hexdump_internal_def emit_lines_def)

lemma emit_three:
  "emit_lines d acq lg log_level tag (Inr (spec_chunks line buffer 40))
   = Inr (ULOG_LEVEL d acq lg log_level tag (line buffer 16)
          @ ULOG_LEVEL d acq lg log_level tag (line (buffer + 16) 16)
          @ ULOG_LEVEL d acq lg log_level tag (line (buffer + 32) 8))"
  by (simp add: emit_lines_def spec_chunks_40)

lemma char_dump_40:
  "emit_lines d acq lg log_level tag (ulog_buffer_char_internal sg stack mem buffer 40)
   = Inr (ULOG_LEVEL d acq lg log_level tag (char_line (bytes_at mem buffer 16))
          @ ULOG_LEVEL d acq lg log_level tag (char_line (bytes_at mem (buffer + 16) 16))
          @ ULOG_LEVEL d acq lg log_level tag (char_line (bytes_at mem (buffer + 32) 8)))"
  using char_dump_run [of sg stack mem buffer 40] by (simp add: emit_three)

lemma hex_dump_40:
  assumes "\<forall>a. char_arg sg (mem a) = uint (mem a)"
  shows "emit_lines d acq lg log_level tag (ulog_buffer_hex_internal sg stack mem buffer 40)
   = Inr (ULOG_LEVEL d acq lg log_level tag (spec_hex_line (bytes_at mem buffer 16))
          @ ULOG_LEVEL d acq lg log_level tag (spec_hex_line (bytes_at mem (buffer + 16) 16))
          @ ULOG_LEVEL d acq lg log_level tag (spec_hex_line (bytes_at mem (buffer + 32) 8)))"
  using hex_dump_plain [OF assms, of stack buffer 40] by (simp add: emit_three)

lemma hexdump_dump_40:
  assumes "\<forall>a. char_arg sg (mem a) = uint (mem a)"
    and "\<forall>a. length (fmt_p a) \<le> 10 \<and> NUL \<notin> set (fmt_p a)"
  shows "emit_lines d acq lg log_level tag (ulog_buffer_hexdump_internal sg fmt_p stack mem buffer 40)
   = Inr (ULOG_LEVEL d acq lg log_level tag (spec_hexdump_line (fmt_p buffer) (bytes_at mem buffer 16))
          @ ULOG_LEVEL d acq lg log_level tag
              (spec_hexdump_line (fmt_p (buffer + 16)) (bytes_at mem (buffer + 16) 16))
          @ ULOG_LEVEL d acq lg log_level tag
              (spec_hexdump_line (fmt_p (buffer + 32)) (bytes_at mem (buffer + 32) 8)))"
  using hexdump_dump_plain [OF assms, of stack buffer 40] by (simp add: emit_three)

text \<open>
  C2, at the failing input. Where plain \<^verbatim>\<open>char\<close> is signed, the hex renderer called
  with 40 bytes \<^verbatim>\<open>0xFF\<close> stores past \<^verbatim>\<open>hex_buffer\<close> while it renders its first line
  (each byte prints as \<^verbatim>\<open>ffffffff\<close>, and the \<^verbatim>\<open>sprintf\<close> at offset 42 needs ten of the
  seven cells left), and the hexdump renderer called with 40 bytes \<^verbatim>\<open>0x80\<close> stores past
  \<^verbatim>\<open>hd_buffer\<close>: the behaviour is undefined from there on, and neither call makes its
  three \<^verbatim>\<open>ULOG_LEVEL\<close> calls for 16, 16 and 8 bytes.
\<close>

theorem dump_overrun_signed_char:
  "ulog_buffer_hex_internal True sample_stack (mem_of (replicate 40 0xFF)) 0 40
   = Inl BufferOverrun
   \<and> emit_lines ULOG_VERBOSE True (sample_logger []) ULOG_INFO ''main''
        (ulog_buffer_hex_internal True sample_stack (mem_of (replicate 40 0xFF)) 0 40)
   = Inl BufferOverrun
   \<and> ulog_buffer_hexdump_internal True sample_fmt_p sample_stack (mem_of (replicate 40 0x80)) 0 40
   = Inl BufferOverrun"
  by code_simp

text \<open>
  C3, at the failing input. Where plain \<^verbatim>\<open>char\<close> is signed, the byte \<^verbatim>\<open>0xFF\<close> reaches
  \<^verbatim>\<open>%02x\<close> as the \<^verbatim>\<open>int\<close> -1 and prints as \<^verbatim>\<open>ffffffff\<close>; the next
  \<^verbatim>\<open>sprintf\<close>, three cells further on, overwrites its tail, and the line for the bytes
  \<^verbatim>\<open>00 FF 41\<close> is \<^verbatim>\<open>"00 fff41 "\<close>, not \<^verbatim>\<open>"00 ff 41 "\<close>.
\<close>

theorem hex_line_signed_char:
  "ulog_buffer_hex_internal True sample_stack (mem_of [0x00, 0xFF, 0x41]) 0 3
   = Inr [(0, 3, ''00 fff41 '')]"
  by code_simp

lemma hex_line_unsigned_char:
  "ulog_buffer_hex_internal False sample_stack (mem_of [0x00, 0xFF, 0x41]) 0 3
   = Inr [(0, 3, ''00 ff 41 '')]"
  by code_simp

text \<open>
  C4, at the failing input. Where plain \<^verbatim>\<open>char\<close> is signed, the slot of the byte
  \<^verbatim>\<open>0x80\<close> holds the eight digits \<^verbatim>\<open>ffffff80\<close> instead of two, and a full line of such
  bytes no longer fits \<^verbatim>\<open>hd_buffer\<close>.
\<close>

theorem hexdump_line_signed_char:
  "ulog_buffer_hexdump_internal True sample_fmt_p sample_stack (mem_of [0x80]) 0 1
   = Inr [(0, 1, ''0x3ffb4280   ffffff80                                                |.|'')]
   \<and> ulog_buffer_hexdump_internal True sample_fmt_p sample_stack (mem_of (replicate 16 0x80)) 0 16
   = Inl BufferOverrun"
  by code_simp

lemma hexdump_line_of_A:
  "ulog_buffer_hexdump_internal False sample_fmt_p sample_stack (mem_of (replicate 16 0x41)) 0 16
   = Inr [(0, 16, ''0x3ffb4280   41 41 41 41 41 41 41 41  41 41 41 41 41 41 41 41  |AAAAAAAAAAAAAAAA|'')]
   \<and> ulog_buffer_hexdump_internal True sample_fmt_p sample_stack (mem_of (replicate 16 0x41)) 0 16
   = Inr [(0, 16, ''0x3ffb4280   41 41 41 41 41 41 41 41  41 41 41 41 41 41 41 41  |AAAAAAAAAAAAAAAA|'')]"
  by code_simp

text \<open>
  \<^verbatim>\<open>hd_buffer\<close> allows ten characters for the pointer (\<^verbatim>\<open>ADDR[10]\<close> in the comment
  on its layout). With the fourteen characters of a typical 64-bit pointer, a full line
  of 16 bytes needs four cells more than the buffer has.
\<close>

lemma hexdump_line_long_pointer:
  "ulog_buffer_hexdump_internal False (\<lambda>a. ''0x7ffd12345678'') sample_stack
     (mem_of (replicate 16 0x41)) 0 16
   = Inl BufferOverrun"
  by code_simp

end
